theory Spec2Isabelle
  imports Main "HOL-Library.Sublist" "HOL-Library.Word"
begin

section \<open>Data model of the workflow executor\<close>

text \<open>
  The development embeds the class \<^verbatim>\<open>WorkflowExecutor\<close>: the builder of the execution
  order, the per-type node handlers, \<^verbatim>\<open>executeNode\<close> and \<^verbatim>\<open>execute\<close>.

  Modelled from the spec: the declarations of \<^verbatim>\<open>NodeData\<close> and \<^verbatim>\<open>NodeType\<close>, of \<^verbatim>\<open>Node\<close> and
  \<^verbatim>\<open>Edge\<close> (the graph library) and of \<^verbatim>\<open>Network\<close> are not among the sources.  A node is
  its id and its data; the data holds the label, the type tag and the fields that the
  handlers read (a field that may be missing is an option).  The type tag is a string,
  so that a tag outside the closed set of eight can be written.  An edge is its source
  and target id, with the two status annotations that the executor writes.  Payloads
  are untyped in the source (\<^verbatim>\<open>any\<close>) and are JavaScript values here.
\<close>

text \<open>
  A JavaScript string is a sequence of UTF-16 code units: \<^verbatim>\<open>length\<close> counts code units
  and \<^verbatim>\<open>substring\<close> cuts between them (a character outside the basic plane is two code
  units, and a cut may fall between the two).  \<open>ascii\<close> writes a literal of the source
  that has ASCII characters only, one code unit for each of them.
\<close>

type_synonym code_unit = "16 word"

type_synonym jstring = "code_unit list"

definition ascii :: "string \<Rightarrow> jstring" where
  "ascii s = map of_char s"

lemma of_char_unit_eq_iff [simp]: "(of_char c :: code_unit) = of_char d \<longleftrightarrow> c = d"
proof
  assume "(of_char c :: code_unit) = of_char d"
  then have "unat (of_nat (of_char c) :: code_unit) = unat (of_nat (of_char d) :: code_unit)"
    by (simp add: of_nat_of_char)
  then have "(of_char c :: nat) mod 2 ^ 16 = of_char d mod 2 ^ 16"
    by (simp add: unat_of_nat)
  moreover have "(of_char c :: nat) < 2 ^ 16" "(of_char d :: nat) < 2 ^ 16"
    by (rule less_trans [OF nat_of_char_less_256], simp)+
  ultimately have "(of_char c :: nat) = of_char d" by simp
  then show "c = d" by simp
qed simp

lemma ascii_eq_iff [simp]: "ascii s = ascii t \<longleftrightarrow> s = t"
proof -
  have "inj (of_char :: char \<Rightarrow> code_unit)" by (rule injI) simp
  then show ?thesis unfolding ascii_def by (rule inj_map_eq_map)
qed

lemma ascii_Nil [simp]: "ascii [] = []"
  by (simp add: ascii_def)

lemma ascii_eq_Nil [simp]: "ascii s = [] \<longleftrightarrow> s = []" "[] = ascii s \<longleftrightarrow> s = []"
  by (auto simp: ascii_def)

lemma length_ascii [simp]: "length (ascii s) = length s"
  by (simp add: ascii_def)

lemma ascii_append [simp]:
  "ascii s @ ascii t = ascii (s @ t)" "ascii s @ ascii t @ u = ascii (s @ t) @ u"
  by (simp_all add: ascii_def)

definition newline :: jstring where
  "newline = [0x0A]"

datatype status = Idle | Running | Success | Error

datatype json =
    JUndefined
  | JNull
  | JBool bool
  | JNum int
  | JStr jstring
  | JArr "json list"
  | JObj "(jstring \<times> json) list"

record NodeData =
  label :: jstring
  node_type :: jstring
  projectTitle :: "jstring option"
  projectDescription :: "jstring option"
  contractCode :: "jstring option"
  contractName :: "jstring option"
  constructorArgs :: json
  aiPrompt :: "jstring option"

record node =
  ident :: jstring
  ndata :: NodeData

record edge =
  source :: jstring
  target :: jstring
  sourceStatus :: "status option"
  targetStatus :: "status option"

text \<open>
  Node ids are strings.  A JavaScript \<^verbatim>\<open>Map\<close> iterates in insertion order, and \<^verbatim>\<open>set\<close> on a
  key that is already present keeps the key's position: a \<^verbatim>\<open>Map\<close> is an association list
  that \<open>map_set\<close> updates in place or extends at the end.
\<close>

type_synonym 'v js_map = "(jstring \<times> 'v) list"

definition map_get :: "'v js_map \<Rightarrow> jstring \<Rightarrow> 'v option" where
  "map_get m k = map_of m k"

fun map_set :: "'v js_map \<Rightarrow> jstring \<Rightarrow> 'v \<Rightarrow> 'v js_map" where
  "map_set [] k v = [(k, v)]"
| "map_set ((k', v') # m) k v =
     (if k' = k then (k, v) # m else (k', v') # map_set m k v)"

section \<open>buildExecutionOrder\<close>

text \<open>
  \<^verbatim>\<open>inDegree.get(k) || 0\<close>: a missing entry reads as zero (and the number zero, being
  falsy, reads as zero too).
\<close>

definition or_zero :: "int option \<Rightarrow> int" where
  "or_zero v = (case v of None \<Rightarrow> 0 | Some d \<Rightarrow> d)"

text \<open>The \<^verbatim>\<open>// Initialize\<close> loop: every node gets in-degree 0 and an empty successor list.\<close>

definition init_node ::
    "node \<Rightarrow> int js_map \<times> jstring list js_map \<Rightarrow> int js_map \<times> jstring list js_map" where
  "init_node n = (\<lambda>(inDegree, adjacencyList).
     (map_set inDegree (ident n) 0, map_set adjacencyList (ident n) []))"

text \<open>
  The \<^verbatim>\<open>// Build graph\<close> loop.  \<^verbatim>\<open>adjacencyList.get(edge.source)?.push(edge.target)\<close> does
  nothing when the source has no entry; the in-degree of the target is set whether or
  not the target is a node.
\<close>

definition add_edge ::
    "edge \<Rightarrow> int js_map \<times> jstring list js_map \<Rightarrow> int js_map \<times> jstring list js_map" where
  "add_edge e = (\<lambda>(inDegree, adjacencyList).
     (map_set inDegree (target e) (or_zero (map_get inDegree (target e)) + 1),
      (case map_get adjacencyList (source e) of
         None \<Rightarrow> adjacencyList
       | Some ts \<Rightarrow> map_set adjacencyList (source e) (ts @ [target e]))))"

definition build_graph :: "node list \<Rightarrow> edge list \<Rightarrow> int js_map \<times> jstring list js_map" where
  "build_graph ns es = fold add_edge es (fold init_node ns ([], []))"

text \<open>\<^verbatim>\<open>inDegree.forEach\<close>: the queue is seeded in the insertion order of the map.\<close>

definition seed_queue :: "int js_map \<Rightarrow> jstring list" where
  "seed_queue inDegree = map fst (filter (\<lambda>(k, d). d = 0) inDegree)"

text \<open>The body of the inner \<^verbatim>\<open>forEach\<close> over the successors of the popped node.\<close>

definition relax :: "jstring \<Rightarrow> int js_map \<times> jstring list \<Rightarrow> int js_map \<times> jstring list" where
  "relax neighbor = (\<lambda>(inDegree, queue).
     (let newDegree = or_zero (map_get inDegree neighbor) - 1
      in (map_set inDegree neighbor newDegree,
          if newDegree = 0 then queue @ [neighbor] else queue)))"

definition visit ::
    "jstring list js_map \<Rightarrow> jstring \<Rightarrow> int js_map \<times> jstring list \<Rightarrow> int js_map \<times> jstring list" where
  "visit adjacencyList nodeId dq =
     (case map_get adjacencyList nodeId of
        None \<Rightarrow> dq
      | Some neighbors \<Rightarrow> fold relax neighbors dq)"

text \<open>Number of entries whose in-degree is still positive: the variant of the while loop.\<close>

definition pending :: "int js_map \<Rightarrow> nat" where
  "pending inDegree = length (filter (\<lambda>(k, d). 1 \<le> d) inDegree)"

lemma pending_map_set_le:
  "or_zero (map_get m k) \<noteq> 1 \<Longrightarrow> pending (map_set m k (or_zero (map_get m k) - 1)) \<le> pending m"
  by (induction m) (auto simp: pending_def map_get_def or_zero_def)

lemma pending_map_set_hit:
  "or_zero (map_get m k) = 1 \<Longrightarrow> Suc (pending (map_set m k 0)) = pending m"
  by (induction m) (auto simp: pending_def map_get_def or_zero_def split: if_splits)

lemma relax_variant:
  "relax n (deg, q) = (deg', q') \<Longrightarrow> pending deg' + length q' \<le> pending deg + length q"
proof (cases "or_zero (map_get deg n) = 1")
  case True
  assume "relax n (deg, q) = (deg', q')"
  with True have "deg' = map_set deg n 0" "q' = q @ [n]"
    by (auto simp: relax_def Let_def)
  with pending_map_set_hit [OF True] show ?thesis by simp
next
  case False
  assume "relax n (deg, q) = (deg', q')"
  with False have "deg' = map_set deg n (or_zero (map_get deg n) - 1)" "q' = q"
    by (auto simp: relax_def Let_def)
  with pending_map_set_le [OF False] show ?thesis by simp
qed

lemma fold_relax_variant:
  "fold relax ns (deg, q) = (deg', q') \<Longrightarrow> pending deg' + length q' \<le> pending deg + length q"
proof (induction ns arbitrary: deg q)
  case Nil
  then show ?case by simp
next
  case (Cons n ns)
  obtain d1 q1 where r: "relax n (deg, q) = (d1, q1)" by (cases "relax n (deg, q)")
  with Cons.prems have "fold relax ns (d1, q1) = (deg', q')" by simp
  from Cons.IH [OF this] relax_variant [OF r] show ?case by simp
qed

lemma visit_variant:
  "visit adj x (deg, q) = (deg', q') \<Longrightarrow> pending deg' + length q' \<le> pending deg + length q"
  by (auto simp: visit_def split: option.splits dest: fold_relax_variant)

text \<open>
  The \<^verbatim>\<open>while (queue.length > 0)\<close> loop: \<^verbatim>\<open>queue.shift()\<close>, \<^verbatim>\<open>result.push(nodeId)\<close>, then the
  successors.
\<close>

function kahn_loop ::
    "jstring list js_map \<Rightarrow> int js_map \<Rightarrow> jstring list \<Rightarrow> jstring list \<Rightarrow> jstring list" where
  "kahn_loop adjacencyList inDegree [] result = result"
| "kahn_loop adjacencyList inDegree (nodeId # queue) result =
     (case visit adjacencyList nodeId (inDegree, queue) of
        (inDegree', queue') \<Rightarrow> kahn_loop adjacencyList inDegree' queue' (result @ [nodeId]))"
  by pat_completeness auto
termination
proof (relation "measure (\<lambda>(adj, deg, q, r). pending deg + length q)", goal_cases)
  case 1
  show ?case by simp
next
  case (2 adj deg x q r deg' q')
  then have "visit adj x (deg, q) = (deg', q')" by simp
  from visit_variant [OF this] show ?case by simp
qed

definition cycle_message :: jstring where
  "cycle_message = ascii ''Workflow contains a cycle. Please check your connections.''"

text \<open>The thrown \<^verbatim>\<open>Error\<close> is the left injection, carrying its message.\<close>

definition kahn_result :: "node list \<Rightarrow> edge list \<Rightarrow> jstring list" where
  "kahn_result ns es =
     (case build_graph ns es of
        (inDegree, adjacencyList) \<Rightarrow> kahn_loop adjacencyList inDegree (seed_queue inDegree) [])"

definition buildExecutionOrder :: "node list \<Rightarrow> edge list \<Rightarrow> jstring + jstring list" where
  "buildExecutionOrder ns es =
     (let result = kahn_result ns es
      in if length result \<noteq> length ns then Inl cycle_message else Inr result)"

section \<open>Facts about the insertion-ordered map\<close>

lemma map_get_map_set: "map_get (map_set m k v) k' = (if k' = k then Some v else map_get m k')"
  by (induction m) (auto simp: map_get_def)

lemma keys_map_set: "map fst (map_set m k v) = (if k \<in> fst ` set m then map fst m else map fst m @ [k])"
  by (induction m) (auto, force+)

lemma distinct_map_set: "distinct (map fst m) \<Longrightarrow> distinct (map fst (map_set m k v))"
  by (simp add: keys_map_set)

lemma map_get_None_iff: "map_get m k = None \<longleftrightarrow> k \<notin> fst ` set m"
  by (simp add: map_get_def map_of_eq_None_iff)

lemma map_get_Nil: "map_get [] k = None"
  by (simp add: map_get_def)

lemma or_zero_None: "or_zero None = 0"
  by (simp add: or_zero_def)

lemma or_zero_Some: "or_zero (Some d) = d"
  by (simp add: or_zero_def)

section \<open>The graph that the builder sets up\<close>

text \<open>
  \<open>indeg\<close> counts the edges into an id and \<open>succs\<close> lists the targets of the edges out
  of an id, in edge order: the two maps of \<open>build_graph\<close> hold exactly these.
\<close>

definition indeg :: "edge list \<Rightarrow> jstring \<Rightarrow> int" where
  "indeg es v = int (length (filter (\<lambda>e. target e = v) es))"

definition succs :: "edge list \<Rightarrow> jstring \<Rightarrow> jstring list" where
  "succs es v = map target (filter (\<lambda>e. source e = v) es)"

lemma init_nodes_deg:
  "fst (fold init_node ns (d, a)) = fold (\<lambda>n m. map_set m (ident n) 0) ns d"
  by (induction ns arbitrary: d a) (auto simp: init_node_def)

lemma init_nodes_adj:
  "snd (fold init_node ns (d, a)) = fold (\<lambda>n m. map_set m (ident n) []) ns a"
  by (induction ns arbitrary: d a) (auto simp: init_node_def)

lemma fold_init_keys:
  "distinct (map ident ns) \<Longrightarrow> set (map ident ns) \<inter> fst ` set m = {} \<Longrightarrow>
   map fst (fold (\<lambda>n m. map_set m (ident n) c) ns m) = map fst m @ map ident ns"
proof (induction ns arbitrary: m)
  case Nil then show ?case by simp
next
  case (Cons n ns)
  have k: "map fst (map_set m (ident n) c) = map fst m @ [ident n]"
    using Cons.prems by (auto simp: keys_map_set)
  have "set (map ident ns) \<inter> fst ` set (map_set m (ident n) c) = {}"
  proof -
    have "fst ` set (map_set m (ident n) c) = set (map fst (map_set m (ident n) c))" by simp
    also have "\<dots> = insert (ident n) (fst ` set m)" unfolding k by auto
    finally show ?thesis using Cons.prems by auto
  qed
  with Cons.IH [of "map_set m (ident n) c"] Cons.prems k show ?case by simp
qed

lemma fold_init_keys_set:
  "fst ` set (fold (\<lambda>n m. map_set m (ident n) c) ns m) = fst ` set m \<union> ident ` set ns"
proof (induction ns arbitrary: m)
  case Nil then show ?case by simp
next
  case (Cons n ns)
  have "fst ` set (map_set m (ident n) c) = set (map fst (map_set m (ident n) c))" by simp
  also have "\<dots> = insert (ident n) (fst ` set m)" by (auto simp: keys_map_set)
  finally show ?case using Cons.IH [of "map_set m (ident n) c"] by auto
qed

lemma fold_init_distinct:
  "distinct (map fst m) \<Longrightarrow> distinct (map fst (fold (\<lambda>n m. map_set m (ident n) c) ns m))"
  by (induction ns arbitrary: m) (auto simp: distinct_map_set)

lemma fold_init_get:
  "map_get (fold (\<lambda>n m. map_set m (ident n) c) ns m) k =
     (if k \<in> ident ` set ns then Some c else map_get m k)"
  by (induction ns arbitrary: m) (auto simp: map_get_map_set)


text \<open>The two components of the \<^verbatim>\<open>edges.forEach\<close> loop, taken apart.\<close>

definition add_deg :: "edge list \<Rightarrow> int js_map \<Rightarrow> int js_map" where
  "add_deg es d = fold (\<lambda>e m. map_set m (target e) (or_zero (map_get m (target e)) + 1)) es d"

definition add_adj :: "edge list \<Rightarrow> jstring list js_map \<Rightarrow> jstring list js_map" where
  "add_adj es a = fold (\<lambda>e a. case map_get a (source e) of None \<Rightarrow> a
      | Some ts \<Rightarrow> map_set a (source e) (ts @ [target e])) es a"

lemma fold_add_edge: "fold add_edge es (d, a) = (add_deg es d, add_adj es a)"
  by (induction es arbitrary: d a) (auto simp: add_edge_def add_deg_def add_adj_def)

lemma add_deg_get:
  "or_zero (map_get (add_deg es d) v) = or_zero (map_get d v) + indeg es v"
  by (induction es arbitrary: d) (auto simp: add_deg_def indeg_def map_get_map_set or_zero_def)

lemma add_deg_keys_set: "fst ` set (add_deg es d) = fst ` set d \<union> target ` set es"
proof (induction es arbitrary: d)
  case Nil then show ?case by (simp add: add_deg_def)
next
  case (Cons e es)
  let ?d1 = "map_set d (target e) (or_zero (map_get d (target e)) + 1)"
  have "fst ` set ?d1 = set (map fst ?d1)" by simp
  also have "\<dots> = insert (target e) (fst ` set d)" by (auto simp: keys_map_set)
  finally have k: "fst ` set ?d1 = insert (target e) (fst ` set d)" .
  have "add_deg (e # es) d = add_deg es ?d1" by (simp add: add_deg_def)
  with Cons.IH [of ?d1] k show ?case by auto
qed

lemma add_deg_distinct: "distinct (map fst d) \<Longrightarrow> distinct (map fst (add_deg es d))"
  by (induction es arbitrary: d) (auto simp: add_deg_def distinct_map_set)

lemma add_deg_keys_prefix: "\<exists>extra. map fst (add_deg es d) = map fst d @ extra"
proof (induction es arbitrary: d)
  case Nil then show ?case by (simp add: add_deg_def)
next
  case (Cons e es)
  let ?d1 = "map_set d (target e) (or_zero (map_get d (target e)) + 1)"
  have "add_deg (e # es) d = add_deg es ?d1" by (simp add: add_deg_def)
  moreover obtain extra where "map fst (add_deg es ?d1) = map fst ?d1 @ extra"
    using Cons.IH by blast
  ultimately show ?case by (auto simp: keys_map_set)
qed

lemma add_adj_get:
  "map_get (add_adj es a) v =
     (case map_get a v of None \<Rightarrow> None | Some ts \<Rightarrow> Some (ts @ succs es v))"
  by (induction es arbitrary: a)
     (auto simp: add_adj_def succs_def map_get_map_set split: option.splits)

lemma build_graph_eq:
  "build_graph ns es =
     (add_deg es (fold (\<lambda>n m. map_set m (ident n) 0) ns []),
      add_adj es (fold (\<lambda>n m. map_set m (ident n) []) ns []))"
proof -
  have "fold init_node ns ([], []) =
      (fold (\<lambda>n m. map_set m (ident n) 0) ns [], fold (\<lambda>n m. map_set m (ident n) []) ns [])"
    using init_nodes_deg [of ns "[]" "[]"] init_nodes_adj [of ns "[]" "[]"]
    by (metis prod.collapse)
  then show ?thesis by (simp add: build_graph_def fold_add_edge)
qed

lemma build_graph_adj:
  "map_get (snd (build_graph ns es)) v =
     (if v \<in> ident ` set ns then Some (succs es v) else None)"
  by (simp add: build_graph_eq add_adj_get fold_init_get map_get_Nil)

lemma build_graph_deg:
  "or_zero (map_get (fst (build_graph ns es)) v) = indeg es v"
  by (simp add: build_graph_eq add_deg_get fold_init_get map_get_Nil or_zero_None or_zero_Some)

lemma build_graph_keys:
  "fst ` set (fst (build_graph ns es)) = ident ` set ns \<union> target ` set es"
  by (simp add: build_graph_eq add_deg_keys_set fold_init_keys_set)

lemma build_graph_distinct: "distinct (map fst (fst (build_graph ns es)))"
  by (simp add: build_graph_eq add_deg_distinct fold_init_distinct)

lemma build_graph_keys_prefix:
  assumes "distinct (map ident ns)"
  shows "\<exists>extra. map fst (fst (build_graph ns es)) = map ident ns @ extra"
proof -
  have "map fst (fold (\<lambda>n m. map_set m (ident n) (0::int)) ns []) = map ident ns"
    using fold_init_keys [OF assms, of "[]" "0::int"] by simp
  with add_deg_keys_prefix [of es "fold (\<lambda>n m. map_set m (ident n) 0) ns []"]
  show ?thesis by (simp add: build_graph_eq)
qed

lemma seed_queue_distinct_keys:
  "distinct (map fst m) \<Longrightarrow> seed_queue m = filter (\<lambda>k. map_get m k = Some 0) (map fst m)"
proof (induction m)
  case Nil then show ?case by (simp add: seed_queue_def)
next
  case (Cons p m)
  obtain k d where p: "p = (k, d)" by (cases p)
  from Cons.prems p have nk: "k \<notin> fst ` set m" and dm: "distinct (map fst m)" by auto
  have "filter (\<lambda>k'. map_get ((k, d) # m) k' = Some 0) (map fst m)
      = filter (\<lambda>k'. map_get m k' = Some 0) (map fst m)"
    using nk by (intro filter_cong) (auto simp: map_get_def)
  with Cons.IH [OF dm] show ?case
    by (auto simp: p seed_queue_def map_get_def)
qed

section \<open>The loop over the successors of a popped node\<close>

text \<open>The in-degree map after the inner \<^verbatim>\<open>forEach\<close>: one decrement per listed successor.\<close>

definition dec_all :: "jstring list \<Rightarrow> int js_map \<Rightarrow> int js_map" where
  "dec_all ns d = fold (\<lambda>n m. map_set m n (or_zero (map_get m n) - 1)) ns d"

lemma fst_fold_relax: "fst (fold relax ns (d, q)) = dec_all ns d"
  by (induction ns arbitrary: d q) (auto simp: relax_def dec_all_def Let_def)

lemma dec_all_get:
  "or_zero (map_get (dec_all ns d) v) = or_zero (map_get d v) - int (count_list ns v)"
  by (induction ns arbitrary: d) (auto simp: dec_all_def map_get_map_set or_zero_Some)

lemma dec_all_other: "v \<notin> set ns \<Longrightarrow> map_get (dec_all ns d) v = map_get d v"
  by (induction ns arbitrary: d) (auto simp: dec_all_def map_get_map_set)

lemma dec_all_keys: "fst ` set (dec_all ns d) = fst ` set d \<union> set ns"
proof (induction ns arbitrary: d)
  case Nil then show ?case by (simp add: dec_all_def)
next
  case (Cons n ns)
  let ?d1 = "map_set d n (or_zero (map_get d n) - 1)"
  have "fst ` set ?d1 = set (map fst ?d1)" by simp
  also have "\<dots> = insert n (fst ` set d)" by (auto simp: keys_map_set)
  finally have k: "fst ` set ?d1 = insert n (fst ` set d)" .
  have "dec_all (n # ns) d = dec_all ns ?d1" by (simp add: dec_all_def)
  with Cons.IH [of ?d1] k show ?case by auto
qed

lemma dec_all_in: "v \<in> set ns \<Longrightarrow> map_get (dec_all ns d) v = Some (or_zero (map_get d v) - int (count_list ns v))"
proof -
  assume "v \<in> set ns"
  then have "v \<in> fst ` set (dec_all ns d)" by (simp add: dec_all_keys)
  then obtain x where "map_get (dec_all ns d) v = Some x"
    using map_get_None_iff [of "dec_all ns d" v] by (cases "map_get (dec_all ns d) v") auto
  with dec_all_get [of ns d v] show ?thesis by (simp add: or_zero_Some)
qed

lemma or_zero_map_set:
  "or_zero (map_get (map_set d n c) v) = (if v = n then c else or_zero (map_get d v))"
  by (simp add: map_get_map_set or_zero_Some)

lemma snd_fold_relax:
  "\<exists>new. snd (fold relax ns (d, q)) = q @ new \<and> distinct new \<and>
     (\<forall>v. v \<in> set new \<longleftrightarrow> v \<in> set ns \<and> 1 \<le> or_zero (map_get d v) \<and>
        or_zero (map_get d v) \<le> int (count_list ns v))"
proof (induction ns arbitrary: d q)
  case Nil then show ?case by simp
next
  case (Cons n ns)
  let ?d1 = "map_set d n (or_zero (map_get d n) - 1)"
  let ?q1 = "if or_zero (map_get d n) = 1 then q @ [n] else q"
  have r: "relax n (d, q) = (?d1, ?q1)" by (simp add: relax_def Let_def)
  from Cons.IH [of ?d1 ?q1] obtain new where
    new: "snd (fold relax ns (?d1, ?q1)) = ?q1 @ new" "distinct new"
      "\<And>v. v \<in> set new \<longleftrightarrow> v \<in> set ns \<and> 1 \<le> or_zero (map_get ?d1 v) \<and>
          or_zero (map_get ?d1 v) \<le> int (count_list ns v)"
    by blast
  have other: "\<And>v. v \<noteq> n \<Longrightarrow> v \<in> set new \<longleftrightarrow> v \<in> set ns \<and> 1 \<le> or_zero (map_get d v) \<and>
          or_zero (map_get d v) \<le> int (count_list ns v)"
    using new(3) by (simp add: or_zero_map_set)
  have self: "n \<in> set new \<longleftrightarrow> n \<in> set ns \<and> 2 \<le> or_zero (map_get d n) \<and>
          or_zero (map_get d n) \<le> int (count_list ns n) + 1"
    using new(3) [of n] by (simp add: or_zero_map_set) linarith
  show ?case
  proof (cases "or_zero (map_get d n) = 1")
    case True
    have nn: "n \<notin> set new" using self True by simp
    have "\<And>v. v \<in> set (n # new) \<longleftrightarrow> v \<in> set (n # ns) \<and> 1 \<le> or_zero (map_get d v) \<and>
          or_zero (map_get d v) \<le> int (count_list (n # ns) v)"
    proof -
      fix v show "v \<in> set (n # new) \<longleftrightarrow> v \<in> set (n # ns) \<and> 1 \<le> or_zero (map_get d v) \<and>
          or_zero (map_get d v) \<le> int (count_list (n # ns) v)"
      proof (cases "v = n")
        case True with \<open>or_zero (map_get d n) = 1\<close> show ?thesis by simp
      next
        case False with other [OF False] show ?thesis by simp
      qed
    qed
    moreover have "snd (fold relax (n # ns) (d, q)) = q @ (n # new)"
      using new(1) r True by simp
    moreover have "distinct (n # new)" using nn new(2) by simp
    ultimately show ?thesis by blast
  next
    case False
    have "\<And>v. v \<in> set new \<longleftrightarrow> v \<in> set (n # ns) \<and> 1 \<le> or_zero (map_get d v) \<and>
          or_zero (map_get d v) \<le> int (count_list (n # ns) v)"
    proof -
      fix v show "v \<in> set new \<longleftrightarrow> v \<in> set (n # ns) \<and> 1 \<le> or_zero (map_get d v) \<and>
          or_zero (map_get d v) \<le> int (count_list (n # ns) v)"
      proof (cases "v = n")
        case True
        have "n \<notin> set ns \<Longrightarrow> count_list ns n = 0" by (simp add: count_list_0_iff)
        with True self False show ?thesis by auto
      next
        case F: False with other [OF F] show ?thesis by simp
      qed
    qed
    moreover have "snd (fold relax (n # ns) (d, q)) = q @ new"
      using new(1) r False by simp
    ultimately show ?thesis using new(2) by blast
  qed
qed

section \<open>The invariant of the while loop\<close>

text \<open>
  \<open>remaining ids es r v\<close> counts the edges into \<open>v\<close> whose source has not been popped as
  a node yet (\<open>r\<close> is the result so far).  The invariant \<open>kahn_inv\<close> says that the
  in-degree map holds these counts, that result and queue together are duplicate-free
  and hold exactly the ids whose count is zero, and that in the result every occurrence
  of an id comes after the sources of all edges into it.  It needs no assumption on the
  graph.
\<close>

definition remaining :: "jstring set \<Rightarrow> edge list \<Rightarrow> jstring list \<Rightarrow> jstring \<Rightarrow> int" where
  "remaining ids es r v =
     int (length (filter (\<lambda>e. target e = v \<and> \<not> (source e \<in> set r \<and> source e \<in> ids)) es))"

lemma count_succs: "count_list (succs es x) v = length (filter (\<lambda>e. source e = x \<and> target e = v) es)"
  by (induction es) (simp_all add: succs_def)

lemma remaining_snoc_node:
  "x \<in> ids \<Longrightarrow> x \<notin> set r \<Longrightarrow>
   remaining ids es (r @ [x]) v = remaining ids es r v - int (count_list (succs es x) v)"
  unfolding count_succs remaining_def
  by (induction es) auto

lemma remaining_snoc_other:
  "x \<notin> ids \<Longrightarrow> remaining ids es (r @ [x]) v = remaining ids es r v"
  unfolding remaining_def by (intro arg_cong [where f = int] arg_cong [where f = length] filter_cong) auto

lemma remaining_zero_iff:
  "remaining ids es r v = 0 \<longleftrightarrow> (\<forall>e\<in>set es. target e = v \<longrightarrow> source e \<in> set r \<and> source e \<in> ids)"
  by (auto simp: remaining_def filter_empty_conv)

lemma succs_subset: "set (succs es x) \<subseteq> target ` set es"
  by (auto simp: succs_def)

lemma in_succs_iff: "v \<in> set (succs es x) \<longleftrightarrow> (\<exists>e\<in>set es. source e = x \<and> target e = v)"
  by (auto simp: succs_def)

definition adj_ok :: "jstring set \<Rightarrow> edge list \<Rightarrow> jstring list js_map \<Rightarrow> bool" where
  "adj_ok ids es adj \<longleftrightarrow> (\<forall>v. map_get adj v = (if v \<in> ids then Some (succs es v) else None))"

definition kahn_inv ::
    "jstring set \<Rightarrow> edge list \<Rightarrow> int js_map \<Rightarrow> jstring list \<Rightarrow> jstring list \<Rightarrow> bool" where
  "kahn_inv ids es deg q r \<longleftrightarrow>
     distinct (r @ q) \<and>
     (\<forall>v. or_zero (map_get deg v) = remaining ids es r v) \<and>
     (\<forall>v. v \<in> set (r @ q) \<longrightarrow> or_zero (map_get deg v) = 0) \<and>
     (\<forall>v. map_get deg v = Some 0 \<longrightarrow> v \<in> set (r @ q)) \<and>
     set (r @ q) \<subseteq> ids \<union> target ` set es \<and>
     ids \<union> target ` set es \<subseteq> fst ` set deg \<and>
     (\<forall>xs v ys. r = xs @ v # ys \<longrightarrow> (\<forall>e\<in>set es. target e = v \<longrightarrow> source e \<in> set xs))"

lemma kahn_invI:
  "distinct (r @ q) \<Longrightarrow>
   (\<And>v. or_zero (map_get deg v) = remaining ids es r v) \<Longrightarrow>
   (\<And>v. v \<in> set (r @ q) \<Longrightarrow> or_zero (map_get deg v) = 0) \<Longrightarrow>
   (\<And>v. map_get deg v = Some 0 \<Longrightarrow> v \<in> set (r @ q)) \<Longrightarrow>
   set (r @ q) \<subseteq> ids \<union> target ` set es \<Longrightarrow>
   ids \<union> target ` set es \<subseteq> fst ` set deg \<Longrightarrow>
   (\<And>xs v ys e. r = xs @ v # ys \<Longrightarrow> e \<in> set es \<Longrightarrow> target e = v \<Longrightarrow> source e \<in> set xs) \<Longrightarrow>
   kahn_inv ids es deg q r"
  unfolding kahn_inv_def by simp

lemma kahn_inv_distinct: "kahn_inv ids es deg q r \<Longrightarrow> distinct (r @ q)"
  unfolding kahn_inv_def by (rule conjunct1)

lemma kahn_inv_rem: "kahn_inv ids es deg q r \<Longrightarrow> or_zero (map_get deg v) = remaining ids es r v"
  unfolding kahn_inv_def by (drule conjunct2, drule conjunct1, erule allE)

lemma kahn_inv_zero:
  "kahn_inv ids es deg q r \<Longrightarrow> v \<in> set (r @ q) \<Longrightarrow> or_zero (map_get deg v) = 0"
  unfolding kahn_inv_def
  by (drule conjunct2, drule conjunct2, drule conjunct1, erule allE [of _ v], erule impE)

lemma kahn_inv_seeded:
  "kahn_inv ids es deg q r \<Longrightarrow> map_get deg v = Some 0 \<Longrightarrow> v \<in> set (r @ q)"
  unfolding kahn_inv_def
  by (drule conjunct2, drule conjunct2, drule conjunct2, drule conjunct1,
      erule allE [of _ v], erule impE)

lemma kahn_inv_sub: "kahn_inv ids es deg q r \<Longrightarrow> set (r @ q) \<subseteq> ids \<union> target ` set es"
  unfolding kahn_inv_def
  by (drule conjunct2, drule conjunct2, drule conjunct2, drule conjunct2, erule conjunct1)

lemma kahn_inv_keys: "kahn_inv ids es deg q r \<Longrightarrow> ids \<union> target ` set es \<subseteq> fst ` set deg"
  unfolding kahn_inv_def
  by (drule conjunct2, drule conjunct2, drule conjunct2, drule conjunct2, drule conjunct2,
      erule conjunct1)

lemma kahn_inv_ord_all:
  "kahn_inv ids es deg q r \<Longrightarrow>
   \<forall>xs v ys. r = xs @ v # ys \<longrightarrow> (\<forall>e\<in>set es. target e = v \<longrightarrow> source e \<in> set xs)"
  unfolding kahn_inv_def
  by (drule conjunct2, drule conjunct2, drule conjunct2, drule conjunct2, drule conjunct2,
      erule conjunct2)

lemma kahn_inv_ord:
  assumes "kahn_inv ids es deg q r" and "r = xs @ v # ys" and "e \<in> set es" and "target e = v"
  shows "source e \<in> set xs"
proof -
  from kahn_inv_ord_all [OF assms(1)]
  have "r = xs @ v # ys \<longrightarrow> (\<forall>e\<in>set es. target e = v \<longrightarrow> source e \<in> set xs)"
    by (elim allE)
  with assms(2-4) show ?thesis by simp
qed

lemma kahn_inv_step:
  assumes adj: "adj_ok ids es adj"
    and inv: "kahn_inv ids es deg (x # q) r"
    and vis: "visit adj x (deg, q) = (deg', q')"
  shows "kahn_inv ids es deg' q' (r @ [x])"
proof -
  note dist = kahn_inv_distinct [OF inv]
    and rem = kahn_inv_rem [OF inv]
    and zero = kahn_inv_zero [OF inv]
    and seeded = kahn_inv_seeded [OF inv]
    and sub = kahn_inv_sub [OF inv]
    and keys = kahn_inv_keys [OF inv]
    and ord = kahn_inv_ord [OF inv]
  from dist have xr: "x \<notin> set r" and xq: "x \<notin> set q" by auto
  have srcx: "\<And>e. e \<in> set es \<Longrightarrow> target e = x \<Longrightarrow> source e \<in> set r"
  proof -
    fix e assume e: "e \<in> set es" "target e = x"
    have "remaining ids es r x = 0" using zero [of x] rem [of x] by simp
    with e show "source e \<in> set r" by (auto simp: remaining_zero_iff)
  qed
  have ord': "\<And>xs v ys e. r @ [x] = xs @ v # ys \<Longrightarrow> e \<in> set es \<Longrightarrow> target e = v \<Longrightarrow> source e \<in> set xs"
  proof -
    fix xs v ys e
    assume eq: "r @ [x] = xs @ v # ys" and e: "e \<in> set es" "target e = v"
    show "source e \<in> set xs"
    proof (cases ys rule: rev_cases)
      case Nil
      with eq have "xs = r" "v = x" by auto
      with srcx e show ?thesis by simp
    next
      case (snoc ys' y)
      with eq have "r = xs @ v # ys'" by simp
      from ord [OF this e] show ?thesis .
    qed
  qed
  show ?thesis
  proof (cases "x \<in> ids")
    case False
    with adj vis have same: "deg' = deg" "q' = q" by (auto simp: adj_ok_def visit_def)
    have r0: "\<And>v. remaining ids es (r @ [x]) v = remaining ids es r v"
      using False by (rule remaining_snoc_other)
    show ?thesis unfolding same
    proof (rule kahn_invI)
      show "distinct ((r @ [x]) @ q)" using dist by simp
      show "\<And>v. or_zero (map_get deg v) = remaining ids es (r @ [x]) v" by (simp add: r0 rem)
      show "\<And>v. v \<in> set ((r @ [x]) @ q) \<Longrightarrow> or_zero (map_get deg v) = 0" using zero by simp
      show "\<And>v. map_get deg v = Some 0 \<Longrightarrow> v \<in> set ((r @ [x]) @ q)" using seeded by simp
      show "set ((r @ [x]) @ q) \<subseteq> ids \<union> target ` set es" using sub by simp
      show "ids \<union> target ` set es \<subseteq> fst ` set deg" by (rule keys)
      show "\<And>xs v ys e. r @ [x] = xs @ v # ys \<Longrightarrow> e \<in> set es \<Longrightarrow> target e = v \<Longrightarrow> source e \<in> set xs"
        by (rule ord')
    qed
  next
    case True
    let ?ns = "succs es x"
    from adj True vis have f: "fold relax ?ns (deg, q) = (deg', q')"
      by (simp add: adj_ok_def visit_def)
    then have deg': "deg' = dec_all ?ns deg" using fst_fold_relax [of ?ns deg q] by simp
    from snd_fold_relax [of ?ns deg q] f obtain new where
      q': "q' = q @ new" and dnew: "distinct new"
      and new: "\<And>v. v \<in> set new \<longleftrightarrow> v \<in> set ?ns \<and> 1 \<le> or_zero (map_get deg v) \<and>
        or_zero (map_get deg v) \<le> int (count_list ?ns v)"
      by auto
    have rem': "\<And>v. or_zero (map_get deg' v) = remaining ids es (r @ [x]) v"
      by (simp add: deg' dec_all_get rem remaining_snoc_node [OF True xr])
    have nonneg: "\<And>v. 0 \<le> remaining ids es (r @ [x]) v" by (simp add: remaining_def)
    have new_iff: "\<And>v. v \<in> set new \<longleftrightarrow> v \<in> set ?ns \<and> remaining ids es (r @ [x]) v = 0"
    proof -
      fix v
      have c: "v \<in> set ?ns \<Longrightarrow> 1 \<le> int (count_list ?ns v)"
        using count_list_0_iff [of ?ns v] by (cases "count_list ?ns v") auto
      have "remaining ids es (r @ [x]) v = or_zero (map_get deg v) - int (count_list ?ns v)"
        by (simp add: rem remaining_snoc_node [OF True xr])
      with nonneg [of v] c new [of v] show "v \<in> set new \<longleftrightarrow> v \<in> set ?ns \<and> remaining ids es (r @ [x]) v = 0"
        by auto
    qed
    have old_not_succ: "\<And>v. v \<in> set (r @ x # q) \<Longrightarrow> v \<notin> set ?ns"
    proof
      fix v assume v: "v \<in> set (r @ x # q)" and s: "v \<in> set ?ns"
      from s obtain e where e: "e \<in> set es" "source e = x" "target e = v"
        by (auto simp: in_succs_iff)
      have "remaining ids es r v = 0" using zero [OF v] rem [of v] by simp
      with e have "x \<in> set r" by (auto simp: remaining_zero_iff)
      with xr show False by simp
    qed
    have disj: "set new \<inter> set (r @ x # q) = {}"
      using old_not_succ new_iff by auto
    have d1: "distinct ((r @ [x]) @ q')"
      using dist dnew disj by (auto simp: q')
    have z1: "\<And>v. v \<in> set ((r @ [x]) @ q') \<Longrightarrow> or_zero (map_get deg' v) = 0"
    proof -
      fix v assume "v \<in> set ((r @ [x]) @ q')"
      then consider "v \<in> set (r @ x # q)" | "v \<in> set new" by (auto simp: q')
      then show "or_zero (map_get deg' v) = 0"
      proof cases
        case 1
        then have "count_list ?ns v = 0" using old_not_succ by (simp add: count_list_0_iff)
        with zero [OF 1] show ?thesis by (simp add: deg' dec_all_get)
      next
        case 2
        with new_iff rem' show ?thesis by simp
      qed
    qed
    have s1: "\<And>v. map_get deg' v = Some 0 \<Longrightarrow> v \<in> set ((r @ [x]) @ q')"
    proof -
      fix v assume g: "map_get deg' v = Some 0"
      show "v \<in> set ((r @ [x]) @ q')"
      proof (cases "v \<in> set ?ns")
        case True
        from g have "or_zero (map_get deg' v) = 0" by (simp add: or_zero_Some)
        with True new_iff rem' have "v \<in> set new" by simp
        then show ?thesis by (simp add: q')
      next
        case False
        with g have "map_get deg v = Some 0" by (simp add: deg' dec_all_other)
        from seeded [OF this] show ?thesis by (auto simp: q')
      qed
    qed
    have sub1: "set ((r @ [x]) @ q') \<subseteq> ids \<union> target ` set es"
    proof -
      have "set new \<subseteq> target ` set es" using new_iff succs_subset [of es x] by auto
      with sub show ?thesis by (auto simp: q')
    qed
    have k1: "ids \<union> target ` set es \<subseteq> fst ` set deg'"
      using keys by (auto simp: deg' dec_all_keys)
    show ?thesis
      by (rule kahn_invI [OF d1 rem' z1 s1 sub1 k1 ord'])
  qed
qed

lemma kahn_loop_inv:
  "adj_ok ids es adj \<Longrightarrow> kahn_inv ids es deg q r \<Longrightarrow>
   \<exists>deg'. kahn_inv ids es deg' [] (kahn_loop adj deg q r)"
proof (induction adj deg q r rule: kahn_loop.induct)
  case (1 adj deg r)
  then show ?case by auto
next
  case (2 adj deg x q r)
  obtain deg' q' where v: "visit adj x (deg, q) = (deg', q')" by (cases "visit adj x (deg, q)")
  from kahn_inv_step [OF "2.prems"(1) "2.prems"(2) v]
  have "kahn_inv ids es deg' q' (r @ [x])" .
  from "2.IH" [OF v [symmetric] "2.prems"(1) this] v show ?case by simp
qed

lemma kahn_inv_init:
  "kahn_inv (ident ` set ns) es (fst (build_graph ns es)) (seed_queue (fst (build_graph ns es))) []"
proof -
  let ?deg = "fst (build_graph ns es)"
  have dk: "distinct (map fst ?deg)" by (rule build_graph_distinct)
  have sq: "seed_queue ?deg = filter (\<lambda>k. map_get ?deg k = Some 0) (map fst ?deg)"
    using dk by (rule seed_queue_distinct_keys)
  have "remaining (ident ` set ns) es [] = indeg es"
    by (rule ext) (simp add: remaining_def indeg_def)
  then have rem: "\<forall>v. or_zero (map_get ?deg v) = remaining (ident ` set ns) es [] v"
    by (simp add: build_graph_deg)
  have z: "\<forall>v. v \<in> set ([] @ seed_queue ?deg) \<longrightarrow> or_zero (map_get ?deg v) = 0"
    by (auto simp: sq or_zero_Some)
  have s: "\<forall>v. map_get ?deg v = Some 0 \<longrightarrow> v \<in> set ([] @ seed_queue ?deg)"
  proof (intro allI impI)
    fix v assume g: "map_get ?deg v = Some 0"
    then have "v \<in> fst ` set ?deg" using map_get_None_iff [of ?deg v] by auto
    with g show "v \<in> set ([] @ seed_queue ?deg)" by (simp add: sq)
  qed
  have sub: "set ([] @ seed_queue ?deg) \<subseteq> ident ` set ns \<union> target ` set es"
    using build_graph_keys [of ns es] by (auto simp: sq)
  have k: "ident ` set ns \<union> target ` set es \<subseteq> fst ` set ?deg"
    by (simp add: build_graph_keys)
  have d: "distinct ([] @ seed_queue ?deg)" using dk by (simp add: sq)
  from d rem z s sub k show ?thesis unfolding kahn_inv_def by simp
qed

section \<open>Properties of the execution order\<close>

lemma buildExecutionOrder_kahn:
  "buildExecutionOrder ns es =
     (if length (kahn_result ns es) \<noteq> length ns then Inl cycle_message
      else Inr (kahn_result ns es))"
  by (simp add: buildExecutionOrder_def Let_def)

lemma kahn_result_inv: "\<exists>deg'. kahn_inv (ident ` set ns) es deg' [] (kahn_result ns es)"
proof -
  obtain deg adj where bg: "build_graph ns es = (deg, adj)" by (cases "build_graph ns es")
  have "adj_ok (ident ` set ns) es adj"
    using build_graph_adj [of ns es] bg by (simp add: adj_ok_def)
  moreover have "kahn_inv (ident ` set ns) es deg (seed_queue deg) []"
    using kahn_inv_init [of ns es] bg by simp
  ultimately show ?thesis
    using kahn_loop_inv [of "ident ` set ns" es adj deg "seed_queue deg" "[]"] bg
    by (simp add: kahn_result_def)
qed

lemma kahn_result_distinct: "distinct (kahn_result ns es)"
  using kahn_result_inv [of ns es] kahn_inv_distinct by fastforce

text \<open>The edges as a relation, for acyclicity and cycles.\<close>

definition edge_rel :: "edge list \<Rightarrow> (jstring \<times> jstring) set" where
  "edge_rel es = (\<lambda>e. (source e, target e)) ` set es"

lemma kahn_result_complete:
  assumes ends: "\<forall>e\<in>set es. source e \<in> ident ` set ns \<and> target e \<in> ident ` set ns"
    and acyc: "acyclic (edge_rel es)"
  shows "set (kahn_result ns es) = ident ` set ns"
proof -
  let ?ids = "ident ` set ns" and ?r = "kahn_result ns es"
  obtain deg' where inv: "kahn_inv ?ids es deg' [] ?r" using kahn_result_inv by blast
  have tsub: "target ` set es \<subseteq> ?ids" using ends by auto
  from kahn_inv_sub [OF inv] have "set ?r \<subseteq> ?ids \<union> target ` set es" by simp
  with tsub have sub: "set ?r \<subseteq> ?ids" by blast
  have "finite (edge_rel es)" by (simp add: edge_rel_def)
  then have wf: "wf (edge_rel es)" using acyc by (rule finite_acyclic_wf)
  have "?ids - set ?r = {}"
  proof (rule ccontr)
    assume "?ids - set ?r \<noteq> {}"
    then obtain x where "x \<in> ?ids - set ?r" by blast
    with wf obtain z where z: "z \<in> ?ids - set ?r"
      and zmin: "\<And>y. (y, z) \<in> edge_rel es \<Longrightarrow> y \<notin> ?ids - set ?r"
      by (rule wfE_min) blast
    from z kahn_inv_keys [OF inv] have "z \<in> fst ` set deg'" by auto
    then obtain d where d: "map_get deg' z = Some d"
      using map_get_None_iff [of deg' z] by (cases "map_get deg' z") auto
    have "d \<noteq> 0" using kahn_inv_seeded [OF inv, of z] d z by auto
    with d kahn_inv_rem [OF inv, of z] have "remaining ?ids es ?r z \<noteq> 0"
      by (simp add: or_zero_Some)
    then obtain e where e: "e \<in> set es" "target e = z" "\<not> (source e \<in> set ?r \<and> source e \<in> ?ids)"
      by (auto simp: remaining_zero_iff)
    with ends have "source e \<in> ?ids - set ?r" by auto
    moreover from e have "(source e, z) \<in> edge_rel es" by (auto simp: edge_rel_def)
    ultimately show False using zmin by blast
  qed
  with sub show ?thesis by auto
qed

lemma kahn_result_order:
  assumes "e \<in> set es" and "target e \<in> set (kahn_result ns es)"
  shows "\<exists>i j. i < j \<and> j < length (kahn_result ns es) \<and>
           kahn_result ns es ! i = source e \<and> kahn_result ns es ! j = target e"
proof -
  let ?r = "kahn_result ns es"
  obtain deg' where inv: "kahn_inv (ident ` set ns) es deg' [] ?r" using kahn_result_inv by blast
  from assms(2) obtain xs ys where r: "?r = xs @ target e # ys" by (auto dest: split_list)
  from kahn_inv_ord [OF inv r assms(1)] have "source e \<in> set xs" by simp
  then obtain i where i: "i < length xs" "xs ! i = source e" by (auto simp: in_set_conv_nth)
  have "?r ! i = source e" using i by (simp add: r nth_append)
  moreover have "?r ! length xs = target e" by (simp add: r)
  moreover have "length xs < length ?r" by (simp add: r)
  ultimately show ?thesis using i(1) by blast
qed

lemma kahn_result_skips_cycle:
  assumes "(v, v) \<in> (edge_rel es)\<^sup>+"
  shows "v \<notin> set (kahn_result ns es)"
proof
  let ?r = "kahn_result ns es" and ?E = "edge_rel es"
  let ?C = "\<lambda>u. (u, v) \<in> ?E\<^sup>+ \<and> (v, u) \<in> ?E\<^sup>+"
  assume v: "v \<in> set ?r"
  obtain deg' where inv: "kahn_inv (ident ` set ns) es deg' [] ?r" using kahn_result_inv by blast
  from v assms have "\<exists>x\<in>set ?r. ?C x" by blast
  then obtain ys x zs where r: "?r = ys @ x # zs" and x: "?C x" and first: "\<forall>y\<in>set ys. \<not> ?C y"
    by (auto dest!: split_list_first_prop)
  from x have "(v, x) \<in> ?E\<^sup>+" by simp
  then obtain p where p: "(p, x) \<in> ?E" "p = v \<or> (v, p) \<in> ?E\<^sup>+"
    by (auto elim: tranclE)
  have "(p, v) \<in> ?E\<^sup>+" using p(1) x by (meson trancl_into_trancl2)
  moreover have "(v, p) \<in> ?E\<^sup>+" using p(2) assms by auto
  ultimately have cp: "?C p" by simp
  from p(1) obtain e where e: "e \<in> set es" "source e = p" "target e = x"
    by (auto simp: edge_rel_def)
  from kahn_inv_ord [OF inv r e(1) e(3)] e(2) have "p \<in> set ys" by simp
  with first cp show False by blast
qed

lemma visit_queue_grows: "\<exists>new. snd (visit adj x (deg, q)) = q @ new"
  using snd_fold_relax [of _ deg q] by (auto simp: visit_def split: option.splits)

lemma kahn_loop_prefix: "\<exists>rest. kahn_loop adj deg q r = r @ q @ rest"
proof (induction adj deg q r rule: kahn_loop.induct)
  case (1 adj deg r)
  then show ?case by simp
next
  case (2 adj deg x q r)
  obtain deg' q' where v: "visit adj x (deg, q) = (deg', q')" by (cases "visit adj x (deg, q)")
  from visit_queue_grows [of adj x deg q] v obtain new where q': "q' = q @ new" by auto
  from "2.IH" [OF v [symmetric]] obtain rest where
    "kahn_loop adj deg' q' (r @ [x]) = (r @ [x]) @ q' @ rest" by blast
  with v q' show ?case by simp
qed

lemma seed_queue_build_graph:
  assumes "distinct (map ident ns)"
  shows "seed_queue (fst (build_graph ns es)) = filter (\<lambda>i. i \<notin> target ` set es) (map ident ns)"
proof -
  let ?deg = "fst (build_graph ns es)"
  have dk: "distinct (map fst ?deg)" by (rule build_graph_distinct)
  obtain extra where keys: "map fst ?deg = map ident ns @ extra"
    using build_graph_keys_prefix [OF assms] by blast
  have zero_iff: "\<And>k. k \<in> set (map fst ?deg) \<Longrightarrow> map_get ?deg k = Some 0 \<longleftrightarrow> k \<notin> target ` set es"
  proof -
    fix k assume "k \<in> set (map fst ?deg)"
    then obtain d where d: "map_get ?deg k = Some d"
      using map_get_None_iff [of ?deg k] by (cases "map_get ?deg k") auto
    with build_graph_deg [of ns es k] have "d = indeg es k" by (simp add: or_zero_Some)
    moreover have "indeg es k = 0 \<longleftrightarrow> k \<notin> target ` set es"
      by (auto simp: indeg_def filter_empty_conv)
    ultimately show "map_get ?deg k = Some 0 \<longleftrightarrow> k \<notin> target ` set es" using d by simp
  qed
  have "set extra \<subseteq> target ` set es"
  proof
    fix k assume k: "k \<in> set extra"
    with dk keys have "k \<notin> ident ` set ns" by auto
    moreover from k keys have "k \<in> fst ` set ?deg"
      by (metis Un_iff list.set_map set_append)
    ultimately show "k \<in> target ` set es" using build_graph_keys [of ns es] by auto
  qed
  then have ex: "filter (\<lambda>i. i \<notin> target ` set es) extra = []"
    by (auto simp: filter_empty_conv)
  have "seed_queue ?deg = filter (\<lambda>k. map_get ?deg k = Some 0) (map fst ?deg)"
    using dk by (rule seed_queue_distinct_keys)
  also have "\<dots> = filter (\<lambda>i. i \<notin> target ` set es) (map fst ?deg)"
    using zero_iff by (intro filter_cong) auto
  also have "\<dots> = filter (\<lambda>i. i \<notin> target ` set es) (map ident ns)"
    by (simp add: keys ex)
  finally show ?thesis .
qed

lemma kahn_result_starts_with_seed:
  "\<exists>rest. kahn_result ns es = seed_queue (fst (build_graph ns es)) @ rest"
proof -
  obtain deg adj where bg: "build_graph ns es = (deg, adj)" by (cases "build_graph ns es")
  from kahn_loop_prefix [of adj deg "seed_queue deg" "[]"] bg show ?thesis
    by (simp add: kahn_result_def)
qed

lemma subset_disjoint_empty: "A \<subseteq> B \<Longrightarrow> B \<inter> A = {} \<Longrightarrow> A = {}"
  by blast

lemma kahn_result_no_edges:
  assumes "distinct (map ident ns)"
  shows "kahn_result ns [] = map ident ns"
proof -
  have "seed_queue (fst (build_graph ns [])) = map ident ns"
    using seed_queue_build_graph [OF assms, of "[]"] by simp
  with kahn_result_starts_with_seed [of ns "[]"] obtain rest where
    r: "kahn_result ns [] = map ident ns @ rest" by auto
  obtain deg' where inv: "kahn_inv (ident ` set ns) [] deg' [] (kahn_result ns [])"
    using kahn_result_inv by blast
  from kahn_inv_sub [OF inv] have "set rest \<subseteq> ident ` set ns" by (simp add: r)
  moreover from kahn_result_distinct [of ns "[]"] have "ident ` set ns \<inter> set rest = {}"
    by (simp add: r)
  ultimately have "set rest = {}" by (rule subset_disjoint_empty)
  then have "rest = []" by simp
  with r show ?thesis by simp
qed

section \<open>JavaScript values\<close>

text \<open>
  Payloads are untyped (\<^verbatim>\<open>any\<close>) in the source.  \<open>truthy\<close> is JavaScript truthiness,
  \<open>field\<close> a property read (with or without optional chaining: on the values a handler
  reads from, a missing property and a read through \<^verbatim>\<open>null\<close> both give \<^verbatim>\<open>undefined\<close>),
  \<open>js_or\<close> the operator \<^verbatim>\<open>||\<close>.
\<close>

fun truthy :: "json \<Rightarrow> bool" where
  "truthy JUndefined = False"
| "truthy JNull = False"
| "truthy (JBool b) = b"
| "truthy (JNum n) = (n \<noteq> 0)"
| "truthy (JStr s) = (s \<noteq> [])"
| "truthy (JArr xs) = True"
| "truthy (JObj kvs) = True"

fun field :: "json \<Rightarrow> jstring \<Rightarrow> json" where
  "field (JObj kvs) f = (case map_of kvs f of None \<Rightarrow> JUndefined | Some v \<Rightarrow> v)"
| "field v f = JUndefined"

definition js_or :: "json \<Rightarrow> json \<Rightarrow> json" where
  "js_or a b = (if truthy a then a else b)"

fun js_typeof :: "json \<Rightarrow> jstring" where
  "js_typeof JUndefined = ascii ''undefined''"
| "js_typeof JNull = ascii ''object''"
| "js_typeof (JBool b) = ascii ''boolean''"
| "js_typeof (JNum n) = ascii ''number''"
| "js_typeof (JStr s) = ascii ''string''"
| "js_typeof (JArr xs) = ascii ''object''"
| "js_typeof (JObj kvs) = ascii ''object''"

text \<open>\<^verbatim>\<open>Array.prototype.join\<close> on an array of strings.\<close>

fun join :: "jstring \<Rightarrow> jstring list \<Rightarrow> jstring" where
  "join sep [] = []"
| "join sep [x] = x"
| "join sep (x # y # ys) = x @ sep @ join sep (y # ys)"

text \<open>Decimal digits of a number, for template strings.\<close>

function nat_digits :: "nat \<Rightarrow> jstring" where
  "nat_digits n =
     (if n < 10 then [ascii ''0123456789'' ! n]
      else nat_digits (n div 10) @ [ascii ''0123456789'' ! (n mod 10)])"
  by pat_completeness auto
termination
  by (relation "measure id") auto

definition int_digits :: "int \<Rightarrow> jstring" where
  "int_digits i = (if i < 0 then ascii ''-'' @ nat_digits (nat (- i)) else nat_digits (nat i))"

text \<open>String conversion of a value inside a template string.\<close>

fun js_string :: "json \<Rightarrow> jstring" where
  "js_string JUndefined = ascii ''undefined''"
| "js_string JNull = ascii ''null''"
| "js_string (JBool b) = (if b then ascii ''true'' else ascii ''false'')"
| "js_string (JNum n) = int_digits n"
| "js_string (JStr s) = s"
| "js_string (JArr xs) =
     join (ascii '','') (map (\<lambda>x. if x = JUndefined \<or> x = JNull then [] else js_string x) xs)"
| "js_string (JObj kvs) = ascii ''[object Object]''"

text \<open>An optional string property of a typed object, as a value.\<close>

definition opt_str :: "jstring option \<Rightarrow> json" where
  "opt_str v = (case v of None \<Rightarrow> JUndefined | Some s \<Rightarrow> JStr s)"

definition str_truthy :: "jstring option \<Rightarrow> bool" where
  "str_truthy v = (case v of None \<Rightarrow> False | Some s \<Rightarrow> s \<noteq> [])"

definition str_or :: "jstring option \<Rightarrow> jstring \<Rightarrow> jstring" where
  "str_or v d = (case v of None \<Rightarrow> d | Some s \<Rightarrow> if s = [] then d else s)"

section \<open>Execution context, collaborators and state\<close>

record Network =
  name :: jstring

record ExecutionContext =
  nodes :: "node list"
  edges :: "edge list"
  selectedNetwork :: "Network option"
  has_onEdgeUpdate :: bool

record ExecutionResult =
  success :: bool
  message :: jstring
  data :: json

text \<open>
  The callbacks of the context only report; the model records each call in a trace.
  \<open>HandlerCall\<close> is a trace marker, not a callback of the source: it records that the
  \<^verbatim>\<open>switch\<close> of \<^verbatim>\<open>executeNode\<close> dispatched the node (id, type tag) to a handler.
\<close>

datatype event =
    NodeStatus jstring status
  | EdgeUpdate "edge list"
  | NodeUpdate jstring "(jstring \<times> json) list"
  | HandlerCall jstring jstring

text \<open>
  What an awaited call does: it returns a value, or it throws (its promise rejects).
  Any value can be thrown.  The executor reads nothing of a thrown value but its
  \<^verbatim>\<open>message\<close> property: the thrown value is \<^verbatim>\<open>undefined\<close> or \<^verbatim>\<open>null\<close>, of which no property
  can be read, or any other value, given by its \<^verbatim>\<open>message\<close> (a string, as the message of
  every \<^verbatim>\<open>Error\<close> is; \<open>None\<close> when the value has none, as for a thrown string).
\<close>

datatype nullish = Undefined | Null

datatype thrown = Nullish nullish | WithMessage "jstring option"

datatype 'a outcome = Returns 'a | Throws thrown

record CompilationResult =
  c_success :: bool
  bytecode :: "jstring option"
  abi :: json
  errors :: "jstring list option"
  warnings :: "jstring list option"
  metadataBytes :: "jstring option"

record DeploymentResult =
  d_success :: bool
  contractAddress :: "jstring option"
  transactionHash :: "jstring option"
  d_error :: "jstring option"

record AnalysisResult =
  a_success :: bool
  response :: "jstring option"
  a_error :: "jstring option"

text \<open>
  The collaborators and the ambient browser state, as oracles: the compiler service
  (\<^verbatim>\<open>compileContract\<close>, with the two source checks \<^verbatim>\<open>validateMoveCode\<close> and
  \<^verbatim>\<open>extractContractName\<close> of the same module, which match regular expressions), the wallet
  (\<^verbatim>\<open>window.aptos.account()\<close>, \<^verbatim>\<open>connectWallet\<close>), the address saved in \<^verbatim>\<open>localStorage\<close>,
  the chain client (\<^verbatim>\<open>deployContract\<close>), the analysis service (\<^verbatim>\<open>analyzeContract\<close>),
  \<^verbatim>\<open>JSON.parse\<close> (\<open>None\<close> when it throws) and the clock.  The first argument of a
  time-dependent oracle is the time of the call (the number of nodes started before it),
  so that a collaborator may answer differently from one node to the next; the second
  argument of \<open>aptos_account\<close> numbers the calls within one handler.  \<open>stop_requested t\<close>
  tells whether \<^verbatim>\<open>stop()\<close> is called while the node started at time \<open>t\<close> is in flight,
  the pause after it included (JavaScript being single-threaded, \<^verbatim>\<open>stop()\<close> can only run
  while \<^verbatim>\<open>execute\<close> awaits, and \<^verbatim>\<open>execute\<close> awaits only inside \<^verbatim>\<open>executeNode\<close>).
  \<open>typeError_message\<close> is the message of the \<^verbatim>\<open>TypeError\<close> that the engine raises when the
  property \<^verbatim>\<open>message\<close> of \<^verbatim>\<open>undefined\<close> or of \<^verbatim>\<open>null\<close> is read; its wording is the engine's.
  The callbacks of the context are taken not to throw.
\<close>

record env =
  validateMoveCode :: "jstring \<Rightarrow> bool \<times> jstring option"
  extractContractName :: "jstring \<Rightarrow> jstring option"
  window_defined :: bool
  aptos_installed :: bool
  aptos_account :: "nat \<Rightarrow> nat \<Rightarrow> jstring option outcome"
  saved_walletAddress :: "nat \<Rightarrow> jstring option"
  compileContract :: "nat \<Rightarrow> json \<Rightarrow> json \<Rightarrow> jstring \<Rightarrow> CompilationResult outcome"
  connectWallet :: "nat \<Rightarrow> json option outcome"
  deployContract :: "nat \<Rightarrow> jstring \<Rightarrow> json \<Rightarrow> json \<Rightarrow> json \<Rightarrow> json \<Rightarrow> DeploymentResult outcome"
  analyzeContract :: "nat \<Rightarrow> json \<Rightarrow> jstring \<Rightarrow> AnalysisResult outcome"
  json_parse :: "jstring \<Rightarrow> json option"
  now_iso :: "nat \<Rightarrow> jstring"
  now_locale :: "nat \<Rightarrow> jstring"
  stop_requested :: "nat \<Rightarrow> bool"
  typeError_message :: "nullish \<Rightarrow> jstring"

record exec_state =
  stopped :: bool
  executionData :: "json js_map"
  trace :: "event list"
  clock :: nat

definition failure :: "jstring \<Rightarrow> ExecutionResult" where
  "failure msg = \<lparr>success = False, message = msg, data = JUndefined\<rparr>"

definition opt_field :: "jstring \<Rightarrow> jstring option \<Rightarrow> (jstring \<times> json) list" where
  "opt_field k v = (case v of None \<Rightarrow> [] | Some s \<Rightarrow> [(k, JStr s)])"

definition json_of_compilation :: "CompilationResult \<Rightarrow> json" where
  "json_of_compilation r = JObj
     ([(ascii ''success'', JBool (c_success r))] @ opt_field (ascii ''bytecode'') (bytecode r) @
      (if abi r = JUndefined then [] else [(ascii ''abi'', abi r)]) @
      (case errors r of None \<Rightarrow> [] | Some es \<Rightarrow> [(ascii ''errors'', JArr (map JStr es))]) @
      (case warnings r of None \<Rightarrow> [] | Some ws \<Rightarrow> [(ascii ''warnings'', JArr (map JStr ws))]) @
      opt_field (ascii ''metadataBytes'') (metadataBytes r))"

definition json_of_deployment :: "DeploymentResult \<Rightarrow> json" where
  "json_of_deployment r = JObj
     ([(ascii ''success'', JBool (d_success r))] @ opt_field (ascii ''contractAddress'') (contractAddress r) @
      opt_field (ascii ''transactionHash'') (transactionHash r) @ opt_field (ascii ''error'') (d_error r))"

section \<open>findPreviousData and generateSummary\<close>

text \<open>
  \<^verbatim>\<open>for (const [nodeId, data] of this.executionData.entries())\<close>: the entries in insertion
  order; the first one whose node has the wanted type is returned, \<^verbatim>\<open>null\<close> if none.
\<close>

fun findPreviousData :: "node list \<Rightarrow> json js_map \<Rightarrow> jstring \<Rightarrow> json" where
  "findPreviousData ns [] nodeType = JNull"
| "findPreviousData ns ((nodeId, d) # rest) nodeType =
     (case find (\<lambda>n. ident n = nodeId) ns of
        Some node \<Rightarrow>
          if node_type (ndata node) = nodeType then d else findPreviousData ns rest nodeType
      | None \<Rightarrow> findPreviousData ns rest nodeType)"

text \<open>The check mark U+2713 of the summary lines, one code unit.\<close>

definition check_mark :: jstring where
  "check_mark = [0x2713 :: code_unit]"

definition generateSummary :: "env \<Rightarrow> ExecutionContext \<Rightarrow> json js_map \<Rightarrow> nat \<Rightarrow> jstring" where
  "generateSummary ev ctx store t =
     (let projectData = findPreviousData (nodes ctx) store (ascii ''projectCreate'');
          contractData = findPreviousData (nodes ctx) store (ascii ''contractInput'');
          compileData = findPreviousData (nodes ctx) store (ascii ''compile'');
          deployData = findPreviousData (nodes ctx) store (ascii ''deploy'');
          aiData = findPreviousData (nodes ctx) store (ascii ''aiAudit'');
          lines =
            [ascii ''Workflow Execution Summary'', concat (replicate 40 (ascii ''='')), []] @
            (if truthy projectData then
               [ascii ''Project: '' @ js_string (field projectData (ascii ''title''))] @
               (if truthy (field projectData (ascii ''description''))
                then [ascii ''Description: '' @ js_string (field projectData (ascii ''description''))] else []) @
               [[]]
             else []) @
            (if truthy contractData
             then [ascii ''Contract Name: '' @ js_string (field contractData (ascii ''contractName''))] else []) @
            (if truthy compileData then [check_mark @ ascii '' Compilation: Success''] else []) @
            (if truthy deployData then
               [check_mark @ ascii '' Deployment: Success''] @
               (if truthy (field deployData (ascii ''contractAddress''))
                then [ascii ''  Contract Address: '' @ js_string (field deployData (ascii ''contractAddress''))]
                else []) @
               (if truthy (field deployData (ascii ''transactionHash''))
                then [ascii ''  Transaction Hash: '' @ js_string (field deployData (ascii ''transactionHash''))]
                else []) @
               (case selectedNetwork ctx of
                  None \<Rightarrow> []
                | Some network \<Rightarrow> [ascii ''  Network: '' @ name network])
             else []) @
            (if truthy aiData then [check_mark @ ascii '' AI Analysis: Completed''] else []) @
            [[], ascii ''Execution completed at: '' @ now_locale ev t]
      in join newline lines)"

section \<open>Node handlers\<close>

text \<open>
  A handler reads the node, the execution-scoped store and the collaborators.  It
  returns the partial node data of the \<^verbatim>\<open>onNodeUpdate(node.id, ...)\<close> calls it made, in
  order, and how it ended: with a result, or with whatever a collaborator threw.
  No handler writes the store, the stop flag or a node status.
\<close>

text \<open>The double quote character of the messages.\<close>

definition dquote :: jstring where
  "dquote = [0x22 :: code_unit]"

type_synonym handler_result = "(jstring \<times> json) list list \<times> ExecutionResult outcome"

definition executeProjectCreate :: "env \<Rightarrow> nat \<Rightarrow> node \<Rightarrow> handler_result" where
  "executeProjectCreate ev t node =
     (let nodeData = ndata node
      in if \<not> str_truthy (projectTitle nodeData)
         then ([], Returns (failure (ascii ''Project title is required'')))
         else ([], Returns \<lparr>success = True, message = ascii ''Project initialized'',
                 data = JObj [(ascii ''title'', opt_str (projectTitle nodeData)),
                              (ascii ''description'', JStr (str_or (projectDescription nodeData) [])),
                              (ascii ''timestamp'', JStr (now_iso ev t))]\<rparr>))"

definition executeContractInput :: "env \<Rightarrow> nat \<Rightarrow> node \<Rightarrow> handler_result" where
  "executeContractInput ev t node =
     (let nodeData = ndata node
      in case contractCode nodeData of
           None \<Rightarrow> ([], Returns (failure (ascii ''Contract code is required'')))
         | Some code \<Rightarrow>
             if code = [] then ([], Returns (failure (ascii ''Contract code is required'')))
             else (case validateMoveCode ev code of
               (valid, vmessage) \<Rightarrow>
                 if \<not> valid then ([], Returns (failure (str_or vmessage (ascii ''Invalid Move code''))))
                 else if str_truthy (contractName nodeData) then
                   ([], Returns \<lparr>success = True, message = ascii ''Contract code validated'',
                      data = JObj [(ascii ''contractCode'', JStr code),
                                   (ascii ''contractName'', opt_str (contractName nodeData))]\<rparr>)
                 else (case extractContractName ev code of
                     None \<Rightarrow> ([], Returns (failure
                       (ascii ''Could not extract contract name. Please specify it manually.'')))
                   | Some extracted \<Rightarrow>
                       if extracted = [] then ([], Returns (failure
                         (ascii ''Could not extract contract name. Please specify it manually.'')))
                       else ([[(ascii ''contractName'', JStr extracted)]],
                         Returns \<lparr>success = True, message = ascii ''Contract code validated'',
                           data = JObj [(ascii ''contractCode'', JStr code),
                                        (ascii ''contractName'', JStr extracted)]\<rparr>))))"

text \<open>The test \<^verbatim>\<open>/^0x[a-fA-F0-9]{1,64}$/\<close>.\<close>

definition is_wallet_address :: "jstring \<Rightarrow> bool" where
  "is_wallet_address s \<longleftrightarrow>
     take 2 s = ascii ''0x'' \<and> 1 \<le> length (drop 2 s) \<and> length (drop 2 s) \<le> 64 \<and>
     list_all (\<lambda>c. c \<in> set (ascii ''0123456789abcdefABCDEF'')) (drop 2 s)"

text \<open>
  Method 1 of \<^verbatim>\<open>executeCompile\<close>: the address of \<^verbatim>\<open>window.aptos.account()\<close>; an error is
  caught and ignored.  The oracle answers \<open>Returns None\<close> when there is no account or no
  address.
\<close>

definition wallet_method1 :: "env \<Rightarrow> nat \<Rightarrow> jstring option" where
  "wallet_method1 ev t =
     (if window_defined ev \<and> aptos_installed ev then
        (case aptos_account ev t 0 of
           Returns (Some a) \<Rightarrow> if a \<noteq> [] then Some a else None
         | Returns None \<Rightarrow> None
         | Throws e \<Rightarrow> None)
      else None)"

text \<open>Method 2: the address saved in \<^verbatim>\<open>localStorage\<close>, verified against the wallet if there is one.\<close>

definition wallet_method2 :: "env \<Rightarrow> nat \<Rightarrow> jstring option" where
  "wallet_method2 ev t =
     (if window_defined ev then
        (case saved_walletAddress ev t of
           None \<Rightarrow> None
         | Some savedAddress \<Rightarrow>
             if savedAddress \<noteq> [] \<and> is_wallet_address savedAddress then
               (if aptos_installed ev then
                  (case aptos_account ev t 1 of
                     Returns account \<Rightarrow> if account = Some savedAddress then Some savedAddress else None
                   | Throws e \<Rightarrow> Some savedAddress)
                else Some savedAddress)
             else None)
      else None)"

definition resolve_walletAddress :: "env \<Rightarrow> nat \<Rightarrow> jstring option" where
  "resolve_walletAddress ev t =
     (case wallet_method1 ev t of Some a \<Rightarrow> Some a | None \<Rightarrow> wallet_method2 ev t)"

text \<open>The \<^verbatim>\<open>// Format errors for better display\<close> block.\<close>

definition truncate_error :: "jstring \<Rightarrow> jstring" where
  "truncate_error err = (if length err > 500 then take 500 err @ ascii ''... (truncated)'' else err)"

definition compile_error_message :: "jstring list option \<Rightarrow> jstring" where
  "compile_error_message errs =
     (case errs of
        None \<Rightarrow> ascii ''Compilation failed''
      | Some es \<Rightarrow>
          if length es > 0 then join (newline @ newline) (map truncate_error es)
          else ascii ''Compilation failed'')"

definition executeCompile ::
    "env \<Rightarrow> ExecutionContext \<Rightarrow> json js_map \<Rightarrow> nat \<Rightarrow> node \<Rightarrow> handler_result" where
  "executeCompile ev ctx store t node =
     (let contractData = findPreviousData (nodes ctx) store (ascii ''contractInput'')
      in if \<not> truthy (field contractData (ascii ''contractCode'')) then
           ([], Returns (failure
             (ascii ''No contract code found. Please add a Contract Input node before compilation.'')))
         else (case resolve_walletAddress ev t of
             None \<Rightarrow> ([], Returns (failure
               (ascii ''Wallet not connected. Please connect your wallet before compiling. '' @
                ascii ''Click '' @ dquote @ ascii ''Connect Wallet'' @ dquote @ ascii '' in the top bar.'')))
           | Some walletAddress \<Rightarrow>
               (case compileContract ev t (field contractData (ascii ''contractCode''))
                       (js_or (field contractData (ascii ''contractName'')) (JStr (ascii ''MyModule'')))
                       walletAddress of
                  Throws e \<Rightarrow> ([], Throws e)
                | Returns result \<Rightarrow>
                    if \<not> c_success result
                    then ([], Returns (failure (compile_error_message (errors result))))
                    else ([[(ascii ''compilationResult'', json_of_compilation result)]],
                          Returns \<lparr>success = True, message = ascii ''Contract compiled successfully'',
                            data = json_of_compilation result\<rparr>))))"

definition executeGenerateABI ::
    "ExecutionContext \<Rightarrow> json js_map \<Rightarrow> node \<Rightarrow> handler_result" where
  "executeGenerateABI ctx store node =
     (let compilationResult = findPreviousData (nodes ctx) store (ascii ''compile'')
      in if \<not> truthy (field compilationResult (ascii ''abi'')) then
           ([], Returns (failure
             (ascii ''No compilation result found. Please compile the contract first.'')))
         else ([[(ascii ''abi'', field compilationResult (ascii ''abi''))]],
               Returns \<lparr>success = True, message = ascii ''ABI generated successfully'',
                 data = JObj [(ascii ''abi'', field compilationResult (ascii ''abi''))]\<rparr>))"

definition executeGenerateBytecode ::
    "ExecutionContext \<Rightarrow> json js_map \<Rightarrow> node \<Rightarrow> handler_result" where
  "executeGenerateBytecode ctx store node =
     (let compilationResult = findPreviousData (nodes ctx) store (ascii ''compile'')
      in if \<not> truthy compilationResult then
           ([], Returns (failure
             (ascii ''No compilation result found. Please compile the contract first.'')))
         else
           (let bytecode = js_or (field compilationResult (ascii ''bytecode''))
                  (js_or (field (field compilationResult (ascii ''data'')) (ascii ''bytecode''))
                         (field (field compilationResult (ascii ''compilationResult'')) (ascii ''bytecode'')))
            in if \<not> truthy bytecode then
                 ([], Returns (failure (ascii ''No bytecode found in compilation result. '' @
                    ascii ''Please ensure compilation completed successfully.'')))
               else if bytecode = JStr [] \<or> bytecode = JStr (ascii ''0x'') then
                 ([], Returns (failure
                    (ascii ''Bytecode is empty. Please ensure compilation completed successfully.'')))
               else ([[(ascii ''bytecode'', bytecode)]],
                     Returns \<lparr>success = True, message = ascii ''Bytecode generated successfully'',
                       data = JObj [(ascii ''bytecode'', bytecode)]\<rparr>)))"

definition executeDeploy ::
    "env \<Rightarrow> ExecutionContext \<Rightarrow> json js_map \<Rightarrow> nat \<Rightarrow> node \<Rightarrow> handler_result" where
  "executeDeploy ev ctx store t node =
     (let nodeData = ndata node;
          bytecodeData = findPreviousData (nodes ctx) store (ascii ''generateBytecode'');
          contractData = findPreviousData (nodes ctx) store (ascii ''contractInput'');
          compilationResult = findPreviousData (nodes ctx) store (ascii ''compile'');
          bytecode0 = js_or (field bytecodeData (ascii ''bytecode''))
                        (field (field bytecodeData (ascii ''data'')) (ascii ''bytecode''));
          bytecode = (if truthy bytecode0 then bytecode0
                      else js_or (field compilationResult (ascii ''bytecode''))
                             (field (field compilationResult (ascii ''data'')) (ascii ''bytecode'')));
          metadataBytes = js_or (field compilationResult (ascii ''metadataBytes''))
                            (field (field compilationResult (ascii ''data'')) (ascii ''metadataBytes''))
      in if \<not> truthy bytecode then
           ([], Returns (failure (ascii ''Bytecode is required. Please compile the contract and '' @
              ascii ''generate bytecode first. Check console for details.'')))
         else if \<not> truthy (field contractData (ascii ''contractName'')) then
           ([], Returns (failure (ascii ''Module name is required for deployment.'')))
         else if selectedNetwork ctx = None then
           ([], Returns (failure
              (ascii ''No network selected. Please select a network from the top bar.'')))
         else (case connectWallet ev t of
             Throws e \<Rightarrow> ([], Throws e)
           | Returns None \<Rightarrow> ([], Returns (failure
               (ascii ''Failed to connect wallet. Please connect Petra wallet.'')))
           | Returns (Some wallet) \<Rightarrow>
               (let args0 = js_or (constructorArgs nodeData) (JArr []);
                    args = (case args0 of
                              JArr xs \<Rightarrow> args0
                            | _ \<Rightarrow> (case json_parse ev (js_string args0) of
                                       Some v \<Rightarrow> v
                                     | None \<Rightarrow> JArr []))
                in if \<not> truthy bytecode then
                     ([], Returns (failure (ascii ''Bytecode is missing. Please ensure compilation and '' @
                        ascii ''bytecode generation completed successfully.'')))
                   else (case bytecode of
                      JStr b \<Rightarrow>
                        if b = [] \<or> b = ascii ''0x'' \<or> length b \<le> 2 then
                          ([], Returns (failure (ascii ''Bytecode is empty or invalid (length: '' @
                             nat_digits (length b) @ ascii ''). Please ensure compilation completed '' @
                             ascii ''successfully and generated valid bytecode.'')))
                        else (case deployContract ev t b (field contractData (ascii ''contractName''))
                                     args (field wallet (ascii ''account'')) metadataBytes of
                                Throws e \<Rightarrow> ([], Throws e)
                              | Returns deployResult \<Rightarrow>
                                  if \<not> d_success deployResult then
                                    ([], Returns (failure
                                       (str_or (d_error deployResult) (ascii ''Deployment failed''))))
                                  else ([[(ascii ''deployedAddress'', opt_str (contractAddress deployResult)),
                                            (ascii ''transactionHash'', opt_str (transactionHash deployResult))]],
                                        Returns \<lparr>success = True,
                                          message = ascii ''Contract deployed successfully'',
                                          data = json_of_deployment deployResult\<rparr>))
                    | _ \<Rightarrow> ([], Returns (failure (ascii ''Invalid bytecode type: '' @
                            js_typeof bytecode @ ascii ''. Expected string.'')))))))"

definition executeAIAudit ::
    "env \<Rightarrow> ExecutionContext \<Rightarrow> json js_map \<Rightarrow> nat \<Rightarrow> node \<Rightarrow> handler_result" where
  "executeAIAudit ev ctx store t node =
     (let nodeData = ndata node;
          contractData = findPreviousData (nodes ctx) store (ascii ''contractInput'')
      in if \<not> truthy (field contractData (ascii ''contractCode'')) then
           ([], Returns (failure (ascii ''No contract code found for analysis.'')))
         else
           (let prompt = str_or (aiPrompt nodeData)
                  (ascii ''Analyze this smart contract for security vulnerabilities '' @
                   ascii ''and suggest improvements.'')
            in case analyzeContract ev t (field contractData (ascii ''contractCode'')) prompt of
                 Throws e \<Rightarrow> ([], Throws e)
               | Returns result \<Rightarrow>
                   if \<not> a_success result then
                     ([], Returns (failure (str_or (a_error result) (ascii ''AI analysis failed''))))
                   else ([[(ascii ''aiResponse'', opt_str (response result))]],
                         Returns \<lparr>success = True, message = ascii ''AI analysis completed'',
                           data = JObj [(ascii ''response'', opt_str (response result))]\<rparr>)))"

definition executeCompletion ::
    "env \<Rightarrow> ExecutionContext \<Rightarrow> json js_map \<Rightarrow> nat \<Rightarrow> node \<Rightarrow> handler_result" where
  "executeCompletion ev ctx store t node =
     (let summary = generateSummary ev ctx store t
      in ([[(ascii ''summary'', JStr summary)]],
          Returns \<lparr>success = True, message = ascii ''Workflow completed'',
            data = JObj [(ascii ''summary'', JStr summary)]\<rparr>))"

section \<open>executeNode, the scheduling loop and execute\<close>

definition updateEdgeStatus :: "ExecutionContext \<Rightarrow> jstring \<Rightarrow> status \<Rightarrow> event list" where
  "updateEdgeStatus ctx nodeId st =
     (if \<not> has_onEdgeUpdate ctx then []
      else [EdgeUpdate (map (\<lambda>e.
              if source e = nodeId then e\<lparr>sourceStatus := Some st\<rparr>
              else if target e = nodeId then e\<lparr>targetStatus := Some st\<rparr>
              else e) (edges ctx))])"

definition known_types :: "jstring list" where
  "known_types = [ascii ''projectCreate'', ascii ''contractInput'', ascii ''compile'', ascii ''generateABI'',
     ascii ''generateBytecode'', ascii ''deploy'', ascii ''aiAudit'', ascii ''completion'']"

text \<open>The \<^verbatim>\<open>switch (nodeType)\<close> of \<^verbatim>\<open>executeNode\<close>.\<close>

definition dispatch ::
    "env \<Rightarrow> ExecutionContext \<Rightarrow> json js_map \<Rightarrow> nat \<Rightarrow> node \<Rightarrow> handler_result" where
  "dispatch ev ctx store t node =
     (let nodeType = node_type (ndata node)
      in if nodeType = ascii ''projectCreate'' then executeProjectCreate ev t node
         else if nodeType = ascii ''contractInput'' then executeContractInput ev t node
         else if nodeType = ascii ''compile'' then executeCompile ev ctx store t node
         else if nodeType = ascii ''generateABI'' then executeGenerateABI ctx store node
         else if nodeType = ascii ''generateBytecode'' then executeGenerateBytecode ctx store node
         else if nodeType = ascii ''deploy'' then executeDeploy ev ctx store t node
         else if nodeType = ascii ''aiAudit'' then executeAIAudit ev ctx store t node
         else if nodeType = ascii ''completion'' then executeCompletion ev ctx store t node
         else ([], Returns (failure (ascii ''Unknown node type: '' @ nodeType))))"

text \<open>
  The read \<^verbatim>\<open>error.message\<close> in a \<^verbatim>\<open>catch\<close> block: the property of the thrown value, or a
  \<^verbatim>\<open>TypeError\<close> (\<open>Inl\<close>, with its message) when the thrown value is \<^verbatim>\<open>undefined\<close> or \<^verbatim>\<open>null\<close>.
\<close>

definition read_message :: "env \<Rightarrow> thrown \<Rightarrow> jstring + jstring option" where
  "read_message ev e =
     (case e of
        Nullish n \<Rightarrow> Inl (typeError_message ev n)
      | WithMessage m \<Rightarrow> Inr m)"

text \<open>
  What \<^verbatim>\<open>executeNode\<close> reports after the handler, and how it ends: the
  \<^verbatim>\<open>if (result.success)\<close> branches, which return the result of the handler, and the
  \<^verbatim>\<open>catch\<close> block.  The \<^verbatim>\<open>catch\<close> block reports the status and the edges, then reads
  \<^verbatim>\<open>error.message\<close> for the argument of \<^verbatim>\<open>onNodeUpdate\<close>: when that read throws, the
  callback is not called and \<^verbatim>\<open>executeNode\<close> throws the \<^verbatim>\<open>TypeError\<close> (\<open>Inl\<close>, with its
  message); otherwise it returns a failure result.
\<close>

definition settle ::
    "env \<Rightarrow> ExecutionContext \<Rightarrow> jstring \<Rightarrow> ExecutionResult outcome \<Rightarrow>
     (jstring + ExecutionResult) \<times> event list" where
  "settle ev ctx nodeId out =
     (case out of
        Returns result \<Rightarrow>
          (Inr result,
           if success result then
             [NodeStatus nodeId Success] @ updateEdgeStatus ctx nodeId Success @
             [NodeUpdate nodeId [(ascii ''output'', data result)]]
           else
             [NodeStatus nodeId Error] @ updateEdgeStatus ctx nodeId Error @
             [NodeUpdate nodeId [(ascii ''error'', JStr (message result))]])
      | Throws e \<Rightarrow>
          (case read_message ev e of
             Inl typeError \<Rightarrow>
               (Inl typeError,
                [NodeStatus nodeId Error] @ updateEdgeStatus ctx nodeId Error)
           | Inr m \<Rightarrow>
               (Inr (failure (str_or m (ascii ''Node execution failed''))),
                [NodeStatus nodeId Error] @ updateEdgeStatus ctx nodeId Error @
                [NodeUpdate nodeId [(ascii ''error'', opt_str m)]])))"

text \<open>
  \<^verbatim>\<open>executeNode\<close> returns a result (\<open>Inr\<close>) or throws an error with the given message
  (\<open>Inl\<close>); either way it has reported the events and the clock has moved on.
\<close>

definition executeNode ::
    "env \<Rightarrow> ExecutionContext \<Rightarrow> node \<Rightarrow> exec_state \<Rightarrow>
     (jstring + ExecutionResult) \<times> exec_state" where
  "executeNode ev ctx node s =
     (let t = clock s;
          nodeId = ident node;
          nodeType = node_type (ndata node);
          started = [NodeStatus nodeId Running] @ updateEdgeStatus ctx nodeId Running;
          called = (if nodeType \<in> set known_types then [HandlerCall nodeId nodeType] else [])
      in case dispatch ev ctx (executionData s) t node of
           (updates, out) \<Rightarrow>
             (case settle ev ctx nodeId out of
                (result, settled) \<Rightarrow>
                  (result,
                   s\<lparr>trace := trace s @ started @ called @ map (NodeUpdate nodeId) updates @ settled,
                     clock := Suc t,
                     stopped := (stopped s \<or> stop_requested ev t)\<rparr>)))"

definition stopped_result :: ExecutionResult where
  "stopped_result = failure (ascii ''Workflow execution stopped by user'')"

definition failed_at :: "node \<Rightarrow> ExecutionResult \<Rightarrow> ExecutionResult" where
  "failed_at node result =
     failure (ascii ''Failed at node '' @ dquote @ label (ndata node) @ dquote @ ascii '': '' @ message result)"

text \<open>
  The \<^verbatim>\<open>for (const nodeId of executionOrder)\<close> loop.  \<open>None\<close> is the normal end of the
  loop, \<open>Some (Inr r)\<close> an early \<^verbatim>\<open>return r\<close>, and \<open>Some (Inl msg)\<close> the error that
  \<^verbatim>\<open>await this.executeNode(node)\<close> throws, which leaves the loop.
\<close>

fun run_nodes ::
    "env \<Rightarrow> ExecutionContext \<Rightarrow> jstring list \<Rightarrow> exec_state \<Rightarrow>
     (jstring + ExecutionResult) option \<times> exec_state" where
  "run_nodes ev ctx [] s = (None, s)"
| "run_nodes ev ctx (nodeId # rest) s =
     (if stopped s then (Some (Inr stopped_result), s)
      else (case find (\<lambda>n. ident n = nodeId) (nodes ctx) of
          None \<Rightarrow> run_nodes ev ctx rest s
        | Some node \<Rightarrow>
            (case executeNode ev ctx node s of
               (Inl thrownMessage, s') \<Rightarrow> (Some (Inl thrownMessage), s')
             | (Inr result, s') \<Rightarrow>
                 if \<not> success result then (Some (Inr (failed_at node result)), s')
                 else run_nodes ev ctx rest
                        (s'\<lparr>executionData := map_set (executionData s') nodeId (data result)\<rparr>))))"

text \<open>The \<^verbatim>\<open>catch\<close> block of \<^verbatim>\<open>execute\<close>, for an error with the given message.\<close>

definition caught :: "jstring \<Rightarrow> ExecutionResult" where
  "caught msg =
     failure (if msg = [] then ascii ''Unknown error during workflow execution'' else msg)"

text \<open>
  A run starts from \<open>initial_state\<close>: \<^verbatim>\<open>execute\<close> clears the stop flag and the store
  first (whatever they held), and the trace and the clock of the model count from the
  start of the run.  The error thrown by \<open>buildExecutionOrder\<close> and the error thrown by
  \<^verbatim>\<open>executeNode\<close> are caught by the \<^verbatim>\<open>try\<close> of \<^verbatim>\<open>execute\<close>.
  \<^verbatim>\<open>Object.fromEntries(this.executionData)\<close> is the store as an object, its properties
  listed in the order of the store.
\<close>

definition initial_state :: exec_state where
  "initial_state = \<lparr>stopped = False, executionData = [], trace = [], clock = 0\<rparr>"

definition execute :: "env \<Rightarrow> ExecutionContext \<Rightarrow> ExecutionResult \<times> exec_state" where
  "execute ev ctx =
     (case buildExecutionOrder (nodes ctx) (edges ctx) of
        Inl msg \<Rightarrow> (caught msg, initial_state)
      | Inr executionOrder \<Rightarrow>
          if length executionOrder = 0 then
            (failure (ascii ''No nodes to execute. Please add nodes to your workflow.''), initial_state)
          else (case run_nodes ev ctx executionOrder initial_state of
              (Some (Inr r), s') \<Rightarrow> (r, s')
            | (Some (Inl msg), s') \<Rightarrow> (caught msg, s')
            | (None, s') \<Rightarrow>
                (\<lparr>success = True, message = ascii ''Workflow executed successfully'',
                  data = JObj [(ascii ''summary'',
                                JStr (generateSummary ev ctx (executionData s') (clock s'))),
                               (ascii ''executionData'', JObj (executionData s'))]\<rparr>, s')))"

section \<open>Facts about executeNode and the scheduling loop\<close>

text \<open>How one \<^verbatim>\<open>executeNode\<close> call ends and the events it reports, read off its definition.\<close>

definition node_result ::
    "env \<Rightarrow> ExecutionContext \<Rightarrow> node \<Rightarrow> exec_state \<Rightarrow> jstring + ExecutionResult" where
  "node_result ev ctx node s =
     fst (settle ev ctx (ident node) (snd (dispatch ev ctx (executionData s) (clock s) node)))"

definition node_events :: "env \<Rightarrow> ExecutionContext \<Rightarrow> node \<Rightarrow> exec_state \<Rightarrow> event list" where
  "node_events ev ctx node s =
     [NodeStatus (ident node) Running] @ updateEdgeStatus ctx (ident node) Running @
     (if node_type (ndata node) \<in> set known_types
      then [HandlerCall (ident node) (node_type (ndata node))] else []) @
     map (NodeUpdate (ident node)) (fst (dispatch ev ctx (executionData s) (clock s) node)) @
     snd (settle ev ctx (ident node) (snd (dispatch ev ctx (executionData s) (clock s) node)))"

lemma executeNode_eq:
  "executeNode ev ctx node s =
     (node_result ev ctx node s,
      s\<lparr>trace := trace s @ node_events ev ctx node s, clock := Suc (clock s),
        stopped := (stopped s \<or> stop_requested ev (clock s))\<rparr>)"
  by (simp add: executeNode_def node_result_def node_events_def Let_def split: prod.splits)

text \<open>
  What the loop of \<^verbatim>\<open>execute\<close> does with the end of a node: it goes on when the node
  returned a successful result, recording the data of the result, and leaves otherwise.
\<close>

definition proceeds :: "jstring + ExecutionResult \<Rightarrow> bool" where
  "proceeds r = (case r of Inl msg \<Rightarrow> False | Inr result \<Rightarrow> success result)"

definition recorded :: "jstring + ExecutionResult \<Rightarrow> json" where
  "recorded r = (case r of Inl msg \<Rightarrow> JUndefined | Inr result \<Rightarrow> data result)"

definition loop_exit :: "node \<Rightarrow> jstring + ExecutionResult \<Rightarrow> jstring + ExecutionResult" where
  "loop_exit node r = (case r of Inl msg \<Rightarrow> Inl msg | Inr result \<Rightarrow> Inr (failed_at node result))"

definition returned :: "jstring + ExecutionResult \<Rightarrow> ExecutionResult" where
  "returned r = (case r of Inl msg \<Rightarrow> caught msg | Inr result \<Rightarrow> result)"

lemma run_nodes_success_step:
  assumes "\<not> stopped s" and "find (\<lambda>n. ident n = k) (nodes ctx) = Some node"
    and "proceeds (node_result ev ctx node s)"
  shows "run_nodes ev ctx (k # rest) s =
     run_nodes ev ctx rest
       (s\<lparr>trace := trace s @ node_events ev ctx node s, clock := Suc (clock s),
          stopped := (stopped s \<or> stop_requested ev (clock s)),
          executionData := map_set (executionData s) k (recorded (node_result ev ctx node s))\<rparr>)"
  using assms by (simp add: executeNode_eq proceeds_def recorded_def split: sum.splits)

lemma run_nodes_failure_step:
  assumes "\<not> stopped s" and "find (\<lambda>n. ident n = k) (nodes ctx) = Some node"
    and "\<not> proceeds (node_result ev ctx node s)"
  shows "run_nodes ev ctx (k # rest) s =
     (Some (loop_exit node (node_result ev ctx node s)),
      s\<lparr>trace := trace s @ node_events ev ctx node s, clock := Suc (clock s),
        stopped := (stopped s \<or> stop_requested ev (clock s))\<rparr>)"
  using assms by (simp add: executeNode_eq proceeds_def loop_exit_def split: sum.splits)

lemma run_nodes_stopped:
  "stopped s \<Longrightarrow> run_nodes ev ctx (x # rest) s = (Some (Inr stopped_result), s)"
  by simp

lemma run_nodes_skip:
  "\<not> stopped s \<Longrightarrow> find (\<lambda>n. ident n = x) (nodes ctx) = None \<Longrightarrow>
   run_nodes ev ctx (x # rest) s = run_nodes ev ctx rest s"
  by simp

text \<open>The events that concern the status of a given node: its status changes and its dispatch.\<close>

fun about :: "jstring \<Rightarrow> event \<Rightarrow> bool" where
  "about i (NodeStatus j st) = (j = i)"
| "about i (HandlerCall j ty) = (j = i)"
| "about i (EdgeUpdate es) = False"
| "about i (NodeUpdate j kv) = False"

definition marks :: "jstring \<Rightarrow> event list \<Rightarrow> event list" where
  "marks i evs = filter (about i) evs"

lemma marks_append: "marks i (xs @ ys) = marks i xs @ marks i ys"
  by (simp add: marks_def)

lemma marks_updateEdgeStatus: "marks i (updateEdgeStatus ctx j st) = []"
  by (simp add: marks_def updateEdgeStatus_def)

lemma marks_updates: "marks i (map (NodeUpdate j) ups) = []"
  by (induction ups) (simp_all add: marks_def)

definition final_status :: "jstring + ExecutionResult \<Rightarrow> status" where
  "final_status r = (if proceeds r then Success else Error)"

lemma marks_settle:
  "marks i (snd (settle ev ctx j out)) =
     (if i = j then [NodeStatus j (final_status (fst (settle ev ctx j out)))] else [])"
proof (cases out)
  case (Returns result)
  then show ?thesis
    by (simp add: settle_def marks_def updateEdgeStatus_def final_status_def proceeds_def)
next
  case (Throws e)
  then show ?thesis
    by (cases e)
       (simp_all add: settle_def read_message_def marks_def updateEdgeStatus_def
          final_status_def proceeds_def failure_def)
qed

lemma marks_node_events:
  "marks i (node_events ev ctx node s) =
     (if i = ident node then
        [NodeStatus i Running] @
        (if node_type (ndata node) \<in> set known_types
         then [HandlerCall i (node_type (ndata node))] else []) @
        [NodeStatus i (final_status (node_result ev ctx node s))]
      else [])"
  unfolding node_events_def marks_append marks_updateEdgeStatus marks_updates marks_settle
    node_result_def
  by (simp add: marks_def)

lemma find_ident: "find (\<lambda>n. ident n = i) ns = Some node \<Longrightarrow> ident node = i"
  by (auto simp: find_Some_iff)

lemma run_nodes_append:
  "run_nodes ev ctx (xs @ ys) s =
     (case run_nodes ev ctx xs s of
        (Some r, s') \<Rightarrow> (Some r, s')
      | (None, s') \<Rightarrow> run_nodes ev ctx ys s')"
proof (induction xs arbitrary: s)
  case Nil
  then show ?case by simp
next
  case (Cons x xs)
  show ?case
  proof (cases "stopped s")
    case True
    then show ?thesis by simp
  next
    case False
    show ?thesis
    proof (cases "find (\<lambda>n. ident n = x) (nodes ctx)")
      case None
      with False Cons.IH [of s] show ?thesis by simp
    next
      case (Some node)
      show ?thesis
      proof (cases "proceeds (node_result ev ctx node s)")
        case True
        let ?s2 = "s\<lparr>trace := trace s @ node_events ev ctx node s, clock := Suc (clock s),
          stopped := (stopped s \<or> stop_requested ev (clock s)),
          executionData := map_set (executionData s) x (recorded (node_result ev ctx node s))\<rparr>"
        have "run_nodes ev ctx (x # xs @ ys) s = run_nodes ev ctx (xs @ ys) ?s2"
          using False Some True by (rule run_nodes_success_step)
        moreover have "run_nodes ev ctx (x # xs) s = run_nodes ev ctx xs ?s2"
          using False Some True by (rule run_nodes_success_step)
        ultimately show ?thesis using Cons.IH [of ?s2] by simp
      next
        case F: False
        have "run_nodes ev ctx (x # xs @ ys) s =
            (Some (loop_exit node (node_result ev ctx node s)),
             s\<lparr>trace := trace s @ node_events ev ctx node s, clock := Suc (clock s),
               stopped := (stopped s \<or> stop_requested ev (clock s))\<rparr>)"
          using False Some F by (rule run_nodes_failure_step)
        moreover have "run_nodes ev ctx (x # xs) s =
            (Some (loop_exit node (node_result ev ctx node s)),
             s\<lparr>trace := trace s @ node_events ev ctx node s, clock := Suc (clock s),
               stopped := (stopped s \<or> stop_requested ev (clock s))\<rparr>)"
          using False Some F by (rule run_nodes_failure_step)
        ultimately show ?thesis by simp
      qed
    qed
  qed
qed

lemma run_nodes_marks_outside:
  "i \<notin> set sched \<Longrightarrow> marks i (trace (snd (run_nodes ev ctx sched s))) = marks i (trace s)"
proof (induction sched arbitrary: s)
  case Nil
  then show ?case by simp
next
  case (Cons x rest)
  then have ix: "i \<noteq> x" and ir: "i \<notin> set rest" by auto
  show ?case
  proof (cases "stopped s")
    case True
    then show ?thesis by simp
  next
    case False
    show ?thesis
    proof (cases "find (\<lambda>n. ident n = x) (nodes ctx)")
      case None
      with False Cons.IH [OF ir, of s] show ?thesis by simp
    next
      case (Some node)
      then have idn: "ident node = x" by (rule find_ident)
      let ?s1 = "s\<lparr>trace := trace s @ node_events ev ctx node s, clock := Suc (clock s),
        stopped := (stopped s \<or> stop_requested ev (clock s))\<rparr>"
      have m1: "marks i (trace ?s1) = marks i (trace s)"
        using ix idn by (simp add: marks_append marks_node_events)
      show ?thesis
      proof (cases "proceeds (node_result ev ctx node s)")
        case True
        let ?s2 = "s\<lparr>trace := trace s @ node_events ev ctx node s, clock := Suc (clock s),
          stopped := (stopped s \<or> stop_requested ev (clock s)),
          executionData := map_set (executionData s) x (recorded (node_result ev ctx node s))\<rparr>"
        have "run_nodes ev ctx (x # rest) s = run_nodes ev ctx rest ?s2"
          using False Some True by (rule run_nodes_success_step)
        moreover have "marks i (trace ?s2) = marks i (trace s)" using m1 by simp
        ultimately show ?thesis using Cons.IH [OF ir, of ?s2] by simp
      next
        case F: False
        have "run_nodes ev ctx (x # rest) s = (Some (loop_exit node (node_result ev ctx node s)), ?s1)"
          using False Some F by (rule run_nodes_failure_step)
        with m1 show ?thesis by simp
      qed
    qed
  qed
qed

lemma keys_map_set_set: "fst ` set (map_set m k v) = insert k (fst ` set m)"
proof -
  have "fst ` set (map_set m k v) = set (map fst (map_set m k v))" by simp
  also have "\<dots> = insert k (fst ` set m)" by (auto simp: keys_map_set)
  finally show ?thesis .
qed

lemma run_nodes_store_keys:
  "fst ` set (executionData (snd (run_nodes ev ctx sched s))) \<subseteq> fst ` set (executionData s) \<union> set sched"
proof (induction sched arbitrary: s)
  case Nil
  then show ?case by simp
next
  case (Cons x rest)
  show ?case
  proof (cases "stopped s")
    case True
    then show ?thesis by auto
  next
    case False
    show ?thesis
    proof (cases "find (\<lambda>n. ident n = x) (nodes ctx)")
      case None
      with False Cons.IH [of s] show ?thesis by auto
    next
      case (Some node)
      let ?s1 = "s\<lparr>trace := trace s @ node_events ev ctx node s, clock := Suc (clock s),
        stopped := (stopped s \<or> stop_requested ev (clock s))\<rparr>"
      show ?thesis
      proof (cases "proceeds (node_result ev ctx node s)")
        case True
        let ?s2 = "s\<lparr>trace := trace s @ node_events ev ctx node s, clock := Suc (clock s),
          stopped := (stopped s \<or> stop_requested ev (clock s)),
          executionData := map_set (executionData s) x (recorded (node_result ev ctx node s))\<rparr>"
        have "run_nodes ev ctx (x # rest) s = run_nodes ev ctx rest ?s2"
          using False Some True by (rule run_nodes_success_step)
        moreover have "fst ` set (executionData ?s2) = insert x (fst ` set (executionData s))"
          by (simp add: keys_map_set_set)
        ultimately show ?thesis using Cons.IH [of ?s2] by auto
      next
        case F: False
        have "run_nodes ev ctx (x # rest) s = (Some (loop_exit node (node_result ev ctx node s)), ?s1)"
          using False Some F by (rule run_nodes_failure_step)
        then show ?thesis by (auto simp del: run_nodes.simps)
      qed
    qed
  qed
qed

text \<open>The run from the schedule, once the builder has returned it.\<close>

lemma execute_run:
  assumes "buildExecutionOrder (nodes ctx) (edges ctx) = Inr (pre @ x # post)"
  shows "execute ev ctx =
     (case run_nodes ev ctx (pre @ x # post) initial_state of
        (Some r, s') \<Rightarrow> (returned r, s')
      | (None, s') \<Rightarrow>
          (\<lparr>success = True, message = ascii ''Workflow executed successfully'',
            data = JObj [(ascii ''summary'', JStr (generateSummary ev ctx (executionData s') (clock s'))),
                         (ascii ''executionData'', JObj (executionData s'))]\<rparr>, s'))"
  using assms by (simp add: execute_def returned_def split: prod.splits option.splits sum.splits)

lemma buildExecutionOrder_distinct:
  "buildExecutionOrder ns es = Inr order \<Longrightarrow> distinct order"
  using kahn_result_distinct [of ns es]
  by (auto simp: buildExecutionOrder_kahn split: if_splits)

text \<open>A run that reaches a node after which the loop does not go on ends there.\<close>

lemma execute_fails_at:
  assumes order: "buildExecutionOrder (nodes ctx) (edges ctx) = Inr (pre @ nodeId # post)"
    and pre: "run_nodes ev ctx pre initial_state = (None, s)"
    and ns: "\<not> stopped s"
    and node: "find (\<lambda>n. ident n = nodeId) (nodes ctx) = Some node"
    and fail: "\<not> proceeds (node_result ev ctx node s)"
  shows "execute ev ctx =
     (returned (loop_exit node (node_result ev ctx node s)),
      s\<lparr>trace := trace s @ node_events ev ctx node s, clock := Suc (clock s),
        stopped := stop_requested ev (clock s)\<rparr>)"
proof -
  have "run_nodes ev ctx (nodeId # post) s =
      (Some (loop_exit node (node_result ev ctx node s)),
       s\<lparr>trace := trace s @ node_events ev ctx node s, clock := Suc (clock s),
         stopped := stop_requested ev (clock s)\<rparr>)"
    using run_nodes_failure_step [OF ns node fail] ns by simp
  then have "run_nodes ev ctx (pre @ nodeId # post) initial_state =
      (Some (loop_exit node (node_result ev ctx node s)),
       s\<lparr>trace := trace s @ node_events ev ctx node s, clock := Suc (clock s),
         stopped := stop_requested ev (clock s)\<rparr>)"
    using pre by (simp add: run_nodes_append)
  then show ?thesis by (simp add: execute_run [OF order])
qed

lemma reached_state_facts:
  assumes order: "buildExecutionOrder (nodes ctx) (edges ctx) = Inr (pre @ nodeId # post)"
    and pre: "run_nodes ev ctx pre initial_state = (None, s)"
  shows "map_get (executionData s) nodeId = None"
    and "\<And>i. i \<in> set (nodeId # post) \<Longrightarrow> marks i (trace s) = []"
proof -
  from buildExecutionOrder_distinct [OF order] have d: "distinct (pre @ nodeId # post)" .
  then have "nodeId \<notin> set pre" by auto
  moreover have "fst ` set (executionData s) \<subseteq> set pre"
    using run_nodes_store_keys [of ev ctx pre initial_state] pre by (simp add: initial_state_def)
  ultimately show "map_get (executionData s) nodeId = None"
    by (auto simp: map_get_None_iff)
  fix i assume "i \<in> set (nodeId # post)"
  with d have "i \<notin> set pre" by auto
  from run_nodes_marks_outside [OF this, of ev ctx initial_state] pre
  show "marks i (trace s) = []" by (simp add: initial_state_def marks_def)
qed

lemma HandlerCall_marks: "HandlerCall i ty \<in> set tr \<Longrightarrow> marks i tr \<noteq> []"
  unfolding marks_def filter_empty_conv by (metis about.simps(2))

lemma NodeStatus_marks: "NodeStatus i st \<in> set tr \<Longrightarrow> marks i tr \<noteq> []"
  unfolding marks_def filter_empty_conv by (metis about.simps(1))






lemma dispatch_unknown:
  "node_type (ndata node) \<notin> set known_types \<Longrightarrow>
   dispatch ev ctx store t node = ([], Returns (failure (ascii ''Unknown node type: '' @ node_type (ndata node))))"
  by (simp add: dispatch_def known_types_def Let_def)

lemma node_result_unknown:
  "node_type (ndata node) \<notin> set known_types \<Longrightarrow>
   node_result ev ctx node s = Inr (failure (ascii ''Unknown node type: '' @ node_type (ndata node)))"
  by (simp add: node_result_def dispatch_unknown settle_def failure_def)

text \<open>The status events and dispatch marks a run can leave for one node.\<close>

definition ok_marks :: "jstring \<Rightarrow> event list \<Rightarrow> bool" where
  "ok_marks i m \<longleftrightarrow>
     m = [] \<or>
     (\<exists>ty. m = [NodeStatus i Running, HandlerCall i ty, NodeStatus i Success]) \<or>
     (\<exists>ty. m = [NodeStatus i Running, HandlerCall i ty, NodeStatus i Error]) \<or>
     m = [NodeStatus i Running, NodeStatus i Error]"

lemma ok_marks_node_events: "ok_marks i (marks i (node_events ev ctx node s))"
proof (cases "node_type (ndata node) \<in> set known_types")
  case True
  then show ?thesis
    by (simp add: marks_node_events ok_marks_def final_status_def)
next
  case False
  then have "final_status (node_result ev ctx node s) = Error"
    by (simp add: node_result_unknown final_status_def proceeds_def failure_def)
  with False show ?thesis by (simp add: marks_node_events ok_marks_def)
qed

lemma run_nodes_marks_ok:
  "distinct sched \<Longrightarrow>
   \<exists>m. marks i (trace (snd (run_nodes ev ctx sched s))) = marks i (trace s) @ m \<and> ok_marks i m"
proof (induction sched arbitrary: s)
  case Nil
  then show ?case by (simp add: ok_marks_def)
next
  case (Cons x rest)
  then have xr: "x \<notin> set rest" and dr: "distinct rest" by auto
  show ?case
  proof (cases "stopped s")
    case True
    then show ?thesis by (simp add: ok_marks_def)
  next
    case False
    show ?thesis
    proof (cases "find (\<lambda>n. ident n = x) (nodes ctx)")
      case None
      with False Cons.IH [OF dr, of s] show ?thesis by simp
    next
      case (Some node)
      then have idn: "ident node = x" by (rule find_ident)
      let ?s1 = "s\<lparr>trace := trace s @ node_events ev ctx node s, clock := Suc (clock s),
        stopped := (stopped s \<or> stop_requested ev (clock s))\<rparr>"
      have m1: "marks i (trace ?s1) = marks i (trace s) @ marks i (node_events ev ctx node s)"
        by (simp add: marks_append)
      show ?thesis
      proof (cases "proceeds (node_result ev ctx node s)")
        case F: False
        have "run_nodes ev ctx (x # rest) s = (Some (loop_exit node (node_result ev ctx node s)), ?s1)"
          using False Some F by (rule run_nodes_failure_step)
        then have "snd (run_nodes ev ctx (x # rest) s) = ?s1" by (simp del: run_nodes.simps)
        with m1 ok_marks_node_events [of i ev ctx node s] show ?thesis by metis
      next
        case True
        let ?s2 = "s\<lparr>trace := trace s @ node_events ev ctx node s, clock := Suc (clock s),
          stopped := (stopped s \<or> stop_requested ev (clock s)),
          executionData := map_set (executionData s) x (recorded (node_result ev ctx node s))\<rparr>"
        have run: "run_nodes ev ctx (x # rest) s = run_nodes ev ctx rest ?s2"
          using False Some True by (rule run_nodes_success_step)
        have t2: "marks i (trace ?s2) = marks i (trace s) @ marks i (node_events ev ctx node s)"
          using m1 by simp
        show ?thesis
        proof (cases "i = x")
          case True
          with xr have "i \<notin> set rest" by simp
          from run_nodes_marks_outside [OF this, of ev ctx ?s2] run t2
          have "marks i (trace (snd (run_nodes ev ctx (x # rest) s)))
              = marks i (trace s) @ marks i (node_events ev ctx node s)" by simp
          with ok_marks_node_events [of i ev ctx node s] show ?thesis by metis
        next
          case F: False
          then have "marks i (node_events ev ctx node s) = []"
            using idn by (simp add: marks_node_events)
          with t2 have "marks i (trace ?s2) = marks i (trace s)" by simp
          with Cons.IH [OF dr, of ?s2] run show ?thesis by simp
        qed
      qed
    qed
  qed
qed

text \<open>Whether the store holds an entry whose node has a given type.\<close>

definition entry_has_type :: "node list \<Rightarrow> jstring \<Rightarrow> jstring \<Rightarrow> bool" where
  "entry_has_type ns nodeType nodeId =
     (case find (\<lambda>n. ident n = nodeId) ns of
        Some node \<Rightarrow> node_type (ndata node) = nodeType
      | None \<Rightarrow> False)"

definition holds_type :: "node list \<Rightarrow> json js_map \<Rightarrow> jstring \<Rightarrow> bool" where
  "holds_type ns store nodeType = list_ex (\<lambda>(k, d). entry_has_type ns nodeType k) store"

lemma map_set_fresh: "k \<notin> fst ` set m \<Longrightarrow> map_set m k v = m @ [(k, v)]"
  by (induction m) auto

lemma findPreviousData_append:
  "findPreviousData ns (xs @ ys) T =
     (if holds_type ns xs T then findPreviousData ns xs T else findPreviousData ns ys T)"
  by (induction xs) (auto simp: holds_type_def entry_has_type_def split: option.splits)

lemma holds_type_append: "holds_type ns (xs @ ys) T \<longleftrightarrow> holds_type ns xs T \<or> holds_type ns ys T"
  by (simp add: holds_type_def)

lemma findPreviousData_record_later:
  "k \<notin> fst ` set store \<Longrightarrow> holds_type ns store T \<Longrightarrow>
   findPreviousData ns (map_set store k d) T = findPreviousData ns store T"
  by (simp add: map_set_fresh findPreviousData_append)

lemma findPreviousData_record_first:
  "k \<notin> fst ` set store \<Longrightarrow> \<not> holds_type ns store T \<Longrightarrow> entry_has_type ns T k \<Longrightarrow>
   findPreviousData ns (map_set store k d) T = d"
  by (simp add: map_set_fresh findPreviousData_append entry_has_type_def split: option.splits)

lemma holds_type_record:
  "k \<notin> fst ` set store \<Longrightarrow> holds_type ns store T \<Longrightarrow> holds_type ns (map_set store k d) T"
  by (simp add: map_set_fresh holds_type_append)

lemma run_nodes_keeps_lookup:
  "distinct sched \<Longrightarrow> set sched \<inter> fst ` set (executionData s) = {} \<Longrightarrow>
   holds_type (nodes ctx) (executionData s) T \<Longrightarrow>
   findPreviousData (nodes ctx) (executionData (snd (run_nodes ev ctx sched s))) T =
     findPreviousData (nodes ctx) (executionData s) T"
proof (induction sched arbitrary: s)
  case Nil
  then show ?case by simp
next
  case (Cons x rest)
  from Cons.prems have xr: "x \<notin> set rest" and dr: "distinct rest"
    and xs: "x \<notin> fst ` set (executionData s)"
    and rs: "set rest \<inter> fst ` set (executionData s) = {}" by auto
  show ?case
  proof (cases "stopped s")
    case True
    then show ?thesis by simp
  next
    case False
    show ?thesis
    proof (cases "find (\<lambda>n. ident n = x) (nodes ctx)")
      case None
      with False Cons.IH [OF dr rs Cons.prems(3)] show ?thesis by simp
    next
      case (Some node)
      show ?thesis
      proof (cases "proceeds (node_result ev ctx node s)")
        case F: False
        have "run_nodes ev ctx (x # rest) s =
            (Some (loop_exit node (node_result ev ctx node s)),
             s\<lparr>trace := trace s @ node_events ev ctx node s, clock := Suc (clock s),
               stopped := (stopped s \<or> stop_requested ev (clock s))\<rparr>)"
          using False Some F by (rule run_nodes_failure_step)
        then show ?thesis by (simp del: run_nodes.simps)
      next
        case True
        let ?s2 = "s\<lparr>trace := trace s @ node_events ev ctx node s, clock := Suc (clock s),
          stopped := (stopped s \<or> stop_requested ev (clock s)),
          executionData := map_set (executionData s) x (recorded (node_result ev ctx node s))\<rparr>"
        have run: "run_nodes ev ctx (x # rest) s = run_nodes ev ctx rest ?s2"
          using False Some True by (rule run_nodes_success_step)
        have k2: "set rest \<inter> fst ` set (executionData ?s2) = {}"
          using rs xr by (simp add: keys_map_set_set)
        have h2: "holds_type (nodes ctx) (executionData ?s2) T"
          using holds_type_record [OF xs Cons.prems(3)] by simp
        have "findPreviousData (nodes ctx) (executionData ?s2) T
            = findPreviousData (nodes ctx) (executionData s) T"
          using findPreviousData_record_later [OF xs Cons.prems(3)] by simp
        with Cons.IH [OF dr k2 h2] run show ?thesis by simp
      qed
    qed
  qed
qed

lemma sublist_join: "x \<in> set xs \<Longrightarrow> sublist x (join sep xs)"
proof (induction sep xs rule: join.induct)
  case (1 sep)
  then show ?case by simp
next
  case (2 sep x')
  then show ?case by simp
next
  case (3 sep x' y ys)
  show ?case
  proof (cases "x = x'")
    case True
    then show ?thesis by (simp add: sublist_append_rightI)
  next
    case False
    with "3.prems" have "x \<in> set (y # ys)" by simp
    from "3.IH" [OF this] have "sublist x (join sep (y # ys))" .
    then obtain ps ss where "join sep (y # ys) = ps @ x @ ss" by (auto simp: sublist_def)
    then have "join sep (x' # y # ys) = (x' @ sep @ ps) @ x @ ss" by simp
    then show ?thesis unfolding sublist_def by blast
  qed
qed

lemma trancl_last_edge: "(u, v) \<in> r\<^sup>+ \<Longrightarrow> \<exists>p. (p, v) \<in> r"
  by (auto elim: tranclE)

section \<open>Edges between absent ids\<close>

lemma keys_map_set_present: "k \<in> fst ` set m \<Longrightarrow> fst ` set (map_set m k v) = fst ` set m"
  by (auto simp: keys_map_set_set)

lemma map_get_present: "map_get m k = Some v \<Longrightarrow> k \<in> fst ` set m"
  using map_get_None_iff [of m k] by auto

lemma add_adj_Cons:
  "add_adj (e # es) a =
     add_adj es (case map_get a (source e) of None \<Rightarrow> a
                 | Some ts \<Rightarrow> map_set a (source e) (ts @ [target e]))"
  by (simp add: add_adj_def)

lemma add_adj_filter:
  "add_adj es a = add_adj (filter (\<lambda>e. source e \<in> fst ` set a) es) a"
proof (induction es arbitrary: a)
  case Nil
  then show ?case by simp
next
  case (Cons e es)
  show ?case
  proof (cases "map_get a (source e)")
    case None
    then have "source e \<notin> fst ` set a" by (simp add: map_get_None_iff)
    with None Cons.IH [of a] show ?thesis by (simp add: add_adj_Cons)
  next
    case (Some ts)
    then have k: "source e \<in> fst ` set a" by (rule map_get_present)
    let ?a1 = "map_set a (source e) (ts @ [target e])"
    have "fst ` set ?a1 = fst ` set a" using k by (rule keys_map_set_present)
    with Cons.IH [of ?a1] Some k show ?thesis by (simp add: add_adj_Cons)
  qed
qed

lemma map_set_append_left: "k \<in> fst ` set m \<Longrightarrow> map_set (m @ x) k v = map_set m k v @ x"
proof (induction m)
  case Nil
  then show ?case by simp
next
  case (Cons p m)
  obtain a b where p: "p = (a, b)" by (cases p)
  show ?case
  proof (cases "a = k")
    case True
    then show ?thesis by (simp add: p)
  next
    case False
    with Cons.prems p have "k \<in> fst ` set m" by auto
    from Cons.IH [OF this] False show ?thesis by (simp add: p)
  qed
qed

lemma map_set_append_right: "k \<notin> fst ` set m \<Longrightarrow> map_set (m @ x) k v = m @ map_set x k v"
  by (induction m) auto

lemma map_get_append_left: "k \<in> fst ` set m \<Longrightarrow> map_get (m @ x) k = map_get m k"
  using map_get_None_iff [of m k]
  by (cases "map_get m k") (auto simp: map_get_def map_add_def)

lemma map_get_append_right: "k \<notin> fst ` set m \<Longrightarrow> map_get (m @ x) k = map_get x k"
  using map_get_None_iff [of m k] by (auto simp: map_get_def map_add_def)

text \<open>Entries for absent ids: each has a positive in-degree.\<close>

definition extras_ok :: "jstring set \<Rightarrow> int js_map \<Rightarrow> bool" where
  "extras_ok ids x \<longleftrightarrow> list_all (\<lambda>(k, v). k \<notin> ids \<and> 1 \<le> v) x"

lemma extras_ok_map_set: "extras_ok ids x \<Longrightarrow> k \<notin> ids \<Longrightarrow> 1 \<le> v \<Longrightarrow> extras_ok ids (map_set x k v)"
  by (induction x) (auto simp: extras_ok_def)

lemma extras_ok_or_zero: "extras_ok ids x \<Longrightarrow> 0 \<le> or_zero (map_get x k)"
  by (induction x) (auto simp: extras_ok_def or_zero_def map_get_def)

lemma add_deg_Cons:
  "add_deg (e # es) d = add_deg es (map_set d (target e) (or_zero (map_get d (target e)) + 1))"
  by (simp add: add_deg_def)

lemma add_deg_sim:
  "fst ` set d0 = ids \<Longrightarrow> extras_ok ids x \<Longrightarrow>
   \<exists>x'. add_deg es (d0 @ x) = add_deg (filter (\<lambda>e. target e \<in> ids) es) d0 @ x' \<and>
        extras_ok ids x'"
proof (induction es arbitrary: d0 x)
  case Nil
  then show ?case by (simp add: add_deg_def)
next
  case (Cons e es)
  show ?case
  proof (cases "target e \<in> ids")
    case True
    then have k: "target e \<in> fst ` set d0" using Cons.prems(1) by simp
    let ?d1 = "map_set d0 (target e) (or_zero (map_get d0 (target e)) + 1)"
    have step: "map_set (d0 @ x) (target e) (or_zero (map_get (d0 @ x) (target e)) + 1) = ?d1 @ x"
      using k by (simp add: map_set_append_left map_get_append_left)
    have "fst ` set ?d1 = ids" using k Cons.prems(1) by (simp add: keys_map_set_present)
    from Cons.IH [OF this Cons.prems(2)] True step show ?thesis
      by (simp add: add_deg_Cons)
  next
    case False
    then have k: "target e \<notin> fst ` set d0" using Cons.prems(1) by simp
    let ?x1 = "map_set x (target e) (or_zero (map_get x (target e)) + 1)"
    have step: "map_set (d0 @ x) (target e) (or_zero (map_get (d0 @ x) (target e)) + 1) = d0 @ ?x1"
      using k by (simp add: map_set_append_right map_get_append_right)
    have "extras_ok ids ?x1"
      using Cons.prems(2) False extras_ok_or_zero [OF Cons.prems(2), of "target e"]
      by (intro extras_ok_map_set) simp_all
    from Cons.IH [OF Cons.prems(1) this] False step show ?thesis
      by (simp add: add_deg_Cons)
  qed
qed

lemma seed_queue_extras: "extras_ok ids x \<Longrightarrow> seed_queue (d @ x) = seed_queue d"
proof -
  assume "extras_ok ids x"
  then have "filter (\<lambda>(k, v). v = 0) x = []"
    by (induction x) (auto simp: extras_ok_def)
  then show ?thesis by (simp add: seed_queue_def)
qed

lemma relax_extras:
  "n \<in> fst ` set d \<Longrightarrow> relax n (d @ x, q) = (fst (relax n (d, q)) @ x, snd (relax n (d, q)))"
  by (simp add: relax_def Let_def map_set_append_left map_get_append_left)

lemma relax_keys: "n \<in> fst ` set d \<Longrightarrow> fst ` set (fst (relax n (d, q))) = fst ` set d"
  by (simp add: relax_def Let_def keys_map_set_present)

lemma fold_relax_extras:
  "set ns \<subseteq> fst ` set d \<Longrightarrow>
   fold relax ns (d @ x, q) = (fst (fold relax ns (d, q)) @ x, snd (fold relax ns (d, q))) \<and>
   fst ` set (fst (fold relax ns (d, q))) = fst ` set d"
proof (induction ns arbitrary: d q)
  case Nil
  then show ?case by simp
next
  case (Cons n ns)
  then have n: "n \<in> fst ` set d" and rest: "set ns \<subseteq> fst ` set d" by auto
  obtain d1 q1 where r: "relax n (d, q) = (d1, q1)" by (cases "relax n (d, q)")
  have k1: "fst ` set d1 = fst ` set d" using relax_keys [OF n, of q] r by simp
  have "relax n (d @ x, q) = (d1 @ x, q1)" using relax_extras [OF n, of x q] r by simp
  moreover from rest k1 have "set ns \<subseteq> fst ` set d1" by simp
  ultimately show ?case using Cons.IH [of d1 q1] r k1 by simp
qed

lemma visit_extras:
  assumes "\<And>k ns. map_get adj k = Some ns \<Longrightarrow> set ns \<subseteq> fst ` set d"
  shows "visit adj n (d @ x, q) = (fst (visit adj n (d, q)) @ x, snd (visit adj n (d, q))) \<and>
         fst ` set (fst (visit adj n (d, q))) = fst ` set d"
proof (cases "map_get adj n")
  case None
  then show ?thesis by (simp add: visit_def)
next
  case (Some ns)
  from assms [OF Some] fold_relax_extras [of ns d x q] Some show ?thesis
    by (simp add: visit_def)
qed

lemma kahn_loop_extras:
  "(\<And>k ns. map_get adj k = Some ns \<Longrightarrow> set ns \<subseteq> fst ` set d) \<Longrightarrow>
   kahn_loop adj (d @ x) q r = kahn_loop adj d q r"
proof (induction adj d q r rule: kahn_loop.induct)
  case (1 adj d r)
  then show ?case by simp
next
  case (2 adj d n q r)
  obtain d' q' where v: "visit adj n (d, q) = (d', q')" by (cases "visit adj n (d, q)")
  from visit_extras [of adj d n x q] "2.prems" v
  have vx: "visit adj n (d @ x, q) = (d' @ x, q')" and k: "fst ` set d' = fst ` set d"
    by auto
  have "\<And>k ns. map_get adj k = Some ns \<Longrightarrow> set ns \<subseteq> fst ` set d'"
    using "2.prems" k by simp
  from "2.IH" [OF v [symmetric] this] v vx show ?case by simp
qed

section \<open>Example graphs\<close>

definition mk_node :: "jstring \<Rightarrow> jstring \<Rightarrow> node" where
  "mk_node i t = \<lparr>ident = i, ndata = \<lparr>label = i, node_type = t, projectTitle = None,
     projectDescription = None, contractCode = None, contractName = None,
     constructorArgs = JUndefined, aiPrompt = None\<rparr>\<rparr>"

definition mk_edge :: "jstring \<Rightarrow> jstring \<Rightarrow> edge" where
  "mk_edge s t = \<lparr>source = s, target = t, sourceStatus = None, targetStatus = None\<rparr>"

text \<open>The wording of V8 for a property read of \<^verbatim>\<open>undefined\<close> or \<^verbatim>\<open>null\<close>.\<close>

definition cannot_read :: "nullish \<Rightarrow> jstring" where
  "cannot_read n =
     ascii ''Cannot read properties of '' @
     (case n of Undefined \<Rightarrow> ascii ''undefined'' | Null \<Rightarrow> ascii ''null'') @
     ascii '' (reading '' @ [0x27] @ ascii ''message'' @ [0x27] @ ascii '')''"

definition quiet_env :: env where
  "quiet_env = \<lparr>validateMoveCode = (\<lambda>c. (True, None)), extractContractName = (\<lambda>c. None),
     window_defined = False, aptos_installed = False,
     aptos_account = (\<lambda>t k. Returns None), saved_walletAddress = (\<lambda>t. None),
     compileContract = (\<lambda>t c n w. Throws (WithMessage None)),
     connectWallet = (\<lambda>t. Throws (WithMessage None)),
     deployContract = (\<lambda>t b n a w m. Throws (WithMessage None)),
     analyzeContract = (\<lambda>t c p. Throws (WithMessage None)),
     json_parse = (\<lambda>s. None), now_iso = (\<lambda>t. ascii ''2026''), now_locale = (\<lambda>t. ascii ''now''),
     stop_requested = (\<lambda>t. False), typeError_message = cannot_read\<rparr>"

definition titled :: "jstring \<Rightarrow> jstring \<Rightarrow> node" where
  "titled i ttl = (mk_node i (ascii ''projectCreate''))\<lparr>ndata := (ndata (mk_node i (ascii ''projectCreate'')))\<lparr>projectTitle := Some ttl\<rparr>\<rparr>"

definition two_projects :: ExecutionContext where
  "two_projects = \<lparr>nodes = [titled (ascii ''p1'') (ascii ''First''), titled (ascii ''p2'') (ascii ''Second''), mk_node (ascii ''done'') (ascii ''completion'')],
     edges = [], selectedNetwork = None, has_onEdgeUpdate = True\<rparr>"


definition unknown_type_workflow :: ExecutionContext where
  "unknown_type_workflow =
     \<lparr>nodes = [mk_node (ascii ''n1'') (ascii ''transfer''), mk_node (ascii ''done'') (ascii ''completion'')],
      edges = [mk_edge (ascii ''n1'') (ascii ''done'')], selectedNetwork = None, has_onEdgeUpdate = True\<rparr>"

definition stop_after_first :: env where
  "stop_after_first = quiet_env\<lparr>stop_requested := (\<lambda>t. t = 0)\<rparr>"

definition three_chain :: ExecutionContext where
  "three_chain =
     \<lparr>nodes = [titled (ascii ''n1'') (ascii ''One''), titled (ascii ''n2'') (ascii ''Two''), titled (ascii ''n3'') (ascii ''Three'')],
      edges = [mk_edge (ascii ''n1'') (ascii ''n2''), mk_edge (ascii ''n2'') (ascii ''n3'')],
      selectedNetwork = None, has_onEdgeUpdate = True\<rparr>"

definition first_payload :: json where
  "first_payload = JObj [(ascii ''title'', JStr (ascii ''First'')), (ascii ''description'', JStr []),
     (ascii ''timestamp'', JStr (ascii ''2026''))]"

definition second_payload :: json where
  "second_payload = JObj [(ascii ''title'', JStr (ascii ''Second'')), (ascii ''description'', JStr []),
     (ascii ''timestamp'', JStr (ascii ''2026''))]"

text \<open>
  Three compiler errors with text outside ASCII: a thousand times U+00E9; 499 times
  \<^verbatim>\<open>x\<close> and then U+1F600, which is the two code units D83D and DE00, 501 code units in all;
  three hundred times U+4E2D (900 bytes in UTF-8, but 300 code units).
\<close>

definition long_error :: jstring where
  "long_error = replicate 1000 0xE9"

definition astral_error :: jstring where
  "astral_error = replicate 499 0x78 @ [0xD83D, 0xDE00]"

definition short_error :: jstring where
  "short_error = replicate 300 0x4E2D"

definition failing_compiler :: env where
  "failing_compiler = quiet_env
     \<lparr>window_defined := True,
      saved_walletAddress := (\<lambda>t. Some (ascii ''0x1'')),
      compileContract := (\<lambda>t code nm w. Returns
        \<lparr>c_success = False, bytecode = None, abi = JUndefined,
         errors = Some [long_error, astral_error, short_error],
         warnings = None, metadataBytes = None\<rparr>)\<rparr>"

definition compile_workflow :: ExecutionContext where
  "compile_workflow =
     \<lparr>nodes = [mk_node (ascii ''src'') (ascii ''contractInput''), mk_node (ascii ''cmp'') (ascii ''compile'')],
      edges = [mk_edge (ascii ''src'') (ascii ''cmp'')], selectedNetwork = None, has_onEdgeUpdate = True\<rparr>"

definition source_store :: "json js_map" where
  "source_store = [(ascii ''src'', JObj [(ascii ''contractCode'', JStr (ascii ''module Deployer::Foo {}'')),
     (ascii ''contractName'', JStr (ascii ''Foo''))])]"




definition two_roots_nodes :: "node list" where
  "two_roots_nodes = [mk_node (ascii ''z'') (ascii ''projectCreate''), mk_node (ascii ''m'') (ascii ''compile''),
     mk_node (ascii ''a'') (ascii ''contractInput'')]"

definition two_roots_edges :: "edge list" where
  "two_roots_edges = [mk_edge (ascii ''a'') (ascii ''m'')]"

definition two_cycle :: ExecutionContext where
  "two_cycle =
     \<lparr>nodes = [titled (ascii ''a'') (ascii ''A''), titled (ascii ''b'') (ascii ''B''), titled (ascii ''c'') (ascii ''C'')],
      edges = [mk_edge (ascii ''c'') (ascii ''a''), mk_edge (ascii ''a'') (ascii ''b''), mk_edge (ascii ''b'') (ascii ''a'')],
      selectedNetwork = None, has_onEdgeUpdate = True\<rparr>"

definition cycle_with_dangling_edges :: ExecutionContext where
  "cycle_with_dangling_edges =
     \<lparr>nodes = [titled (ascii ''a'') (ascii ''A''), titled (ascii ''b'') (ascii ''B''), titled (ascii ''c'') (ascii ''C'')],
      edges = [mk_edge (ascii ''a'') (ascii ''b''), mk_edge (ascii ''b'') (ascii ''a''), mk_edge (ascii ''c'') (ascii ''x''), mk_edge (ascii ''c'') (ascii ''y'')],
      selectedNetwork = None, has_onEdgeUpdate = True\<rparr>"

definition dangling_target :: ExecutionContext where
  "dangling_target =
     \<lparr>nodes = [titled (ascii ''a'') (ascii ''A'')], edges = [mk_edge (ascii ''a'') (ascii ''x'')],
      selectedNetwork = None, has_onEdgeUpdate = True\<rparr>"

definition dangling_source :: ExecutionContext where
  "dangling_source =
     \<lparr>nodes = [titled (ascii ''a'') (ascii ''A'')], edges = [mk_edge (ascii ''x'') (ascii ''a'')],
      selectedNetwork = None, has_onEdgeUpdate = True\<rparr>"

definition absent_edge_nodes :: "node list" where
  "absent_edge_nodes = [mk_node (ascii ''a'') (ascii ''contractInput''), mk_node (ascii ''b'') (ascii ''compile'')]"

definition absent_edge_edges :: "edge list" where
  "absent_edge_edges = [mk_edge (ascii ''x'') (ascii ''y''), mk_edge (ascii ''a'') (ascii ''b''), mk_edge (ascii ''y'') (ascii ''x'')]"

definition example_nodes :: "node list" where
  "example_nodes = [mk_node (ascii ''a'') (ascii ''contractInput''), mk_node (ascii ''b'') (ascii ''deploy''), mk_node (ascii ''c'') (ascii ''compile'')]"

definition example_edges :: "edge list" where
  "example_edges = [mk_edge (ascii ''a'') (ascii ''c''), mk_edge (ascii ''c'') (ascii ''b'')]"

lemma example_acyclic: "acyclic (edge_rel example_edges)"
proof (rule acyclicI_order [where f = "\<lambda>s. if s = ascii ''a'' then (2::nat) else if s = ascii ''c'' then 1 else 0"])
  fix a b assume "(a, b) \<in> edge_rel example_edges"
  then show "(if b = ascii ''a'' then (2::nat) else if b = ascii ''c'' then 1 else 0)
     < (if a = ascii ''a'' then 2 else if a = ascii ''c'' then 1 else 0)"
    by (auto simp: edge_rel_def example_edges_def mk_edge_def)
qed

section \<open>The claims\<close>

text \<open>
  C1.  For every acyclic graph with unique node ids whose edges reference only existing
  node ids, \<open>buildExecutionOrder\<close> returns a sequence as long as the node list in which,
  for every edge, the source occurs at a strictly smaller index than the target.
\<close>

theorem buildExecutionOrder_topological:
  assumes "distinct (map ident ns)"
    and "\<forall>e\<in>set es. source e \<in> ident ` set ns \<and> target e \<in> ident ` set ns"
    and "acyclic (edge_rel es)"
  shows "\<exists>order. buildExecutionOrder ns es = Inr order \<and> length order = length ns \<and>
           (\<forall>e\<in>set es. \<exists>i j. i < j \<and> j < length order \<and>
              order ! i = source e \<and> order ! j = target e)"
proof -
  let ?r = "kahn_result ns es"
  have s: "set ?r = ident ` set ns" using assms(2,3) by (rule kahn_result_complete)
  have "length ?r = card (set ?r)" using kahn_result_distinct [of ns es] by (simp add: distinct_card)
  also have "\<dots> = card (set (map ident ns))" by (simp add: s)
  also have "\<dots> = length ns" using assms(1) distinct_card [of "map ident ns"] by simp
  finally have len: "length ?r = length ns" .
  have "\<forall>e\<in>set es. \<exists>i j. i < j \<and> j < length ?r \<and> ?r ! i = source e \<and> ?r ! j = target e"
  proof
    fix e assume e: "e \<in> set es"
    with assms(2) s have "target e \<in> set ?r" by simp
    with e show "\<exists>i j. i < j \<and> j < length ?r \<and> ?r ! i = source e \<and> ?r ! j = target e"
      by (rule kahn_result_order)
  qed
  with len show ?thesis by (simp add: buildExecutionOrder_kahn)
qed

theorem buildExecutionOrder_topological_witness:
  "distinct (map ident example_nodes) \<and> acyclic (edge_rel example_edges) \<and>
   buildExecutionOrder example_nodes example_edges = Inr [ascii ''a'', ascii ''c'', ascii ''b''] \<and>
   (\<exists>order. buildExecutionOrder example_nodes example_edges = Inr order \<and>
      length order = length example_nodes \<and>
      (\<forall>e\<in>set example_edges. \<exists>i j. i < j \<and> j < length order \<and>
              order ! i = source e \<and> order ! j = target e))"
proof -
  have h1: "distinct (map ident example_nodes)"
    by (simp add: example_nodes_def mk_node_def)
  have h2: "\<forall>e\<in>set example_edges. source e \<in> ident ` set example_nodes \<and> target e \<in> ident ` set example_nodes"
    by (simp add: example_nodes_def example_edges_def mk_node_def mk_edge_def)
  have ev: "buildExecutionOrder example_nodes example_edges = Inr [ascii ''a'', ascii ''c'', ascii ''b'']"
    by code_simp
  from buildExecutionOrder_topological [OF h1 h2 example_acyclic] h1 example_acyclic ev
  show ?thesis by blast
qed

text \<open>
  C2 (amended).  The lookup by type returns the payload of the earliest executed node of
  that type, not of the most recent one: once the first node of type \<open>T\<close> has succeeded
  and been recorded, the lookup for \<open>T\<close> returns its payload after any further nodes of
  the schedule have run, whatever their type.
\<close>

theorem earliest_recorded_node_wins:
  assumes order: "buildExecutionOrder (nodes ctx) (edges ctx) = Inr (pre @ a # mid @ post)"
    and pre: "run_nodes ev ctx pre initial_state = (None, s)"
    and ns: "\<not> stopped s"
    and node: "find (\<lambda>n. ident n = a) (nodes ctx) = Some na"
    and ty: "node_type (ndata na) = T"
    and first: "\<not> holds_type (nodes ctx) (executionData s) T"
    and ok: "fst (executeNode ev ctx na s) = Inr r"
    and succ: "success r"
  shows "findPreviousData (nodes ctx) (executionData (snd (run_nodes ev ctx (a # mid) s))) T =
           data r"
proof -
  have nr: "node_result ev ctx na s = Inr r" using ok by (simp add: executeNode_eq)
  have ok': "proceeds (node_result ev ctx na s)" using succ by (simp add: nr proceeds_def)
  have rec: "recorded (node_result ev ctx na s) = data r" by (simp add: nr recorded_def)
  let ?d = "recorded (node_result ev ctx na s)"
  let ?s2 = "s\<lparr>trace := trace s @ node_events ev ctx na s, clock := Suc (clock s),
          stopped := (stopped s \<or> stop_requested ev (clock s)),
          executionData := map_set (executionData s) a ?d\<rparr>"
  have run: "run_nodes ev ctx (a # mid) s = run_nodes ev ctx mid ?s2"
    using ns node ok' by (rule run_nodes_success_step)
  from buildExecutionOrder_distinct [OF order] have d: "distinct (pre @ a # mid @ post)" .
  have keys: "fst ` set (executionData s) \<subseteq> set pre"
    using run_nodes_store_keys [of ev ctx pre initial_state] pre by (simp add: initial_state_def)
  have fresh: "a \<notin> fst ` set (executionData s)" using d keys by auto
  have eht: "entry_has_type (nodes ctx) T a" using node ty by (simp add: entry_has_type_def)
  have look: "findPreviousData (nodes ctx) (executionData ?s2) T = ?d"
    using findPreviousData_record_first [OF fresh first eht] by simp
  have h2: "holds_type (nodes ctx) (executionData ?s2) T"
    using fresh eht by (simp add: map_set_fresh holds_type_append holds_type_def)
  have dm: "distinct mid" using d by simp
  have k2: "set mid \<inter> fst ` set (executionData ?s2) = {}"
    using d keys by (auto simp: keys_map_set_set)
  from run_nodes_keeps_lookup [OF dm k2 h2, of ev] look run
  show ?thesis by (simp add: rec)
qed

theorem most_recent_node_wins_counterexample:
  "map_get (executionData (snd (execute quiet_env two_projects))) (ascii ''p1'') = Some first_payload \<and>
   map_get (executionData (snd (execute quiet_env two_projects))) (ascii ''p2'') = Some second_payload \<and>
   findPreviousData (nodes two_projects)
     (executionData (snd (run_nodes quiet_env two_projects [ascii ''p1'', ascii ''p2''] initial_state)))
     (ascii ''projectCreate'') = first_payload \<and>
   first_payload \<noteq> second_payload \<and>
   field (data (fst (execute quiet_env two_projects))) (ascii ''summary'') =
     JStr (join newline [ascii ''Workflow Execution Summary'', concat (replicate 40 (ascii ''='')), [],
       ascii ''Project: First'', [], [], ascii ''Execution completed at: now''])"
  by code_simp

theorem earliest_recorded_node_wins_witness:
  "findPreviousData (nodes two_projects)
     (executionData (snd (run_nodes quiet_env two_projects [ascii ''p1'', ascii ''p2''] initial_state)))
     (ascii ''projectCreate'') = first_payload"
proof -
  let ?node = "titled (ascii ''p1'') (ascii ''First'')"
  have order: "buildExecutionOrder (nodes two_projects) (edges two_projects)
      = Inr ([] @ ascii ''p1'' # [ascii ''p2''] @ [ascii ''done''])"
    by code_simp
  have pre: "run_nodes quiet_env two_projects [] initial_state = (None, initial_state)"
    by simp
  have ns: "\<not> stopped initial_state" by (simp add: initial_state_def)
  have node: "find (\<lambda>n. ident n = ascii ''p1'') (nodes two_projects) = Some ?node"
    by (simp add: two_projects_def titled_def mk_node_def)
  have ty: "node_type (ndata ?node) = ascii ''projectCreate''"
    by (simp add: titled_def mk_node_def)
  have first: "\<not> holds_type (nodes two_projects) (executionData initial_state) (ascii ''projectCreate'')"
    by (simp add: holds_type_def initial_state_def)
  define r where "r = \<lparr>success = True, message = ascii ''Project initialized'', data = first_payload\<rparr>"
  have ok: "fst (executeNode quiet_env two_projects ?node initial_state) = Inr r"
    unfolding r_def by code_simp
  have succ: "success r" by (simp add: r_def)
  have d: "data r = first_payload" by (simp add: r_def)
  from earliest_recorded_node_wins [OF order pre ns node ty first ok succ] d
  show ?thesis by simp
qed




text \<open>
  C4 (amended).  If \<^verbatim>\<open>stop()\<close> is requested while node \<open>k\<close> of the schedule is in flight
  (or during the pause that follows it) and node \<open>k\<close> succeeds, the node is not
  pre-empted: it reaches status success and its output is recorded.  The flag is seen at
  the next boundary: \<open>execute\<close> returns a failure result whose message is
  \<^verbatim>\<open>Workflow execution stopped by user\<close>, and no later node gets a status event or a
  dispatch.  The claim as stated gives the message as \<^verbatim>\<open>stopped by user\<close>, which is only
  the end of the message the code returns.
\<close>

theorem stop_honoured_at_next_boundary:
  assumes order: "buildExecutionOrder (nodes ctx) (edges ctx) = Inr (pre @ k # next # post)"
    and pre: "run_nodes ev ctx pre initial_state = (None, s)"
    and ns: "\<not> stopped s"
    and node: "find (\<lambda>n. ident n = k) (nodes ctx) = Some node"
    and ok: "fst (executeNode ev ctx node s) = Inr r"
    and succ: "success r"
    and stop: "stop_requested ev (clock s)"
  shows "fst (execute ev ctx) = failure (ascii ''Workflow execution stopped by user'') \<and>
         trace (snd (execute ev ctx)) = trace s @ node_events ev ctx node s \<and>
         marks k (trace (snd (execute ev ctx))) =
           [NodeStatus k Running, HandlerCall k (node_type (ndata node)), NodeStatus k Success] \<and>
         map_get (executionData (snd (execute ev ctx))) k = Some (data r) \<and>
         (\<forall>i\<in>set (next # post). marks i (trace (snd (execute ev ctx))) = [])"
proof -
  have nr: "node_result ev ctx node s = Inr r" using ok by (simp add: executeNode_eq)
  have ok': "proceeds (node_result ev ctx node s)" using succ by (simp add: nr proceeds_def)
  have rec: "recorded (node_result ev ctx node s) = data r" by (simp add: nr recorded_def)
  have idn: "ident node = k" using node by (rule find_ident)
  let ?s1 = "s\<lparr>trace := trace s @ node_events ev ctx node s, clock := Suc (clock s),
        stopped := (stopped s \<or> stop_requested ev (clock s))\<rparr>"
  let ?s2 = "s\<lparr>trace := trace s @ node_events ev ctx node s, clock := Suc (clock s),
        stopped := (stopped s \<or> stop_requested ev (clock s)),
        executionData := map_set (executionData s) k (recorded (node_result ev ctx node s))\<rparr>"
  have "run_nodes ev ctx (k # next # post) s = run_nodes ev ctx (next # post) ?s2"
    using ns node ok' by (rule run_nodes_success_step)
  also have "\<dots> = (Some (Inr stopped_result), ?s2)"
    using stop by (intro run_nodes_stopped) simp
  finally have "run_nodes ev ctx (pre @ k # next # post) initial_state =
      (Some (Inr stopped_result), ?s2)"
    using pre by (simp add: run_nodes_append)
  then have ex: "execute ev ctx = (stopped_result, ?s2)"
    by (simp add: execute_run [OF order] returned_def)
  note reached = reached_state_facts [OF order pre]
  have d: "distinct (pre @ k # next # post)" using order by (rule buildExecutionOrder_distinct)
  have known: "node_type (ndata node) \<in> set known_types"
  proof (rule ccontr)
    assume "node_type (ndata node) \<notin> set known_types"
    then have "node_result ev ctx node s =
        Inr (failure (ascii ''Unknown node type: '' @ node_type (ndata node)))"
      by (rule node_result_unknown)
    with ok' show False by (simp add: proceeds_def failure_def)
  qed
  have r: "fst (execute ev ctx) = failure (ascii ''Workflow execution stopped by user'')"
    by (simp add: ex stopped_result_def)
  have t: "trace (snd (execute ev ctx)) = trace s @ node_events ev ctx node s"
    by (simp add: ex)
  have fs: "final_status (node_result ev ctx node s) = Success"
    using ok' by (simp add: final_status_def)
  have m: "marks k (trace (snd (execute ev ctx))) =
           [NodeStatus k Running, HandlerCall k (node_type (ndata node)), NodeStatus k Success]"
    using reached(2) [of k] idn fs known by (simp add: t marks_append marks_node_events)
  have st: "map_get (executionData (snd (execute ev ctx))) k = Some (data r)"
    by (simp add: ex map_get_map_set rec)
  have later: "\<forall>i\<in>set (next # post). marks i (trace (snd (execute ev ctx))) = []"
  proof
    fix i assume i: "i \<in> set (next # post)"
    with d have "i \<noteq> k" by auto
    moreover from i have "i \<in> set (k # next # post)" by simp
    ultimately show "marks i (trace (snd (execute ev ctx))) = []"
      using reached(2) [of i] idn by (simp add: t marks_append marks_node_events)
  qed
  from r t m st later show ?thesis by simp
qed

theorem stop_message_counterexample:
  "\<not> success (fst (execute stop_after_first three_chain)) \<and>
   message (fst (execute stop_after_first three_chain)) = ascii ''Workflow execution stopped by user'' \<and>
   message (fst (execute stop_after_first three_chain)) \<noteq> ascii ''stopped by user''"
  by code_simp

theorem stop_honoured_at_next_boundary_witness:
  "fst (execute stop_after_first three_chain) = failure (ascii ''Workflow execution stopped by user'') \<and>
   marks (ascii ''n1'') (trace (snd (execute stop_after_first three_chain))) =
     [NodeStatus (ascii ''n1'') Running, HandlerCall (ascii ''n1'') (ascii ''projectCreate''), NodeStatus (ascii ''n1'') Success] \<and>
   marks (ascii ''n2'') (trace (snd (execute stop_after_first three_chain))) = [] \<and>
   marks (ascii ''n3'') (trace (snd (execute stop_after_first three_chain))) = []"
proof -
  let ?node = "titled (ascii ''n1'') (ascii ''One'')"
  have order: "buildExecutionOrder (nodes three_chain) (edges three_chain)
      = Inr ([] @ ascii ''n1'' # ascii ''n2'' # [ascii ''n3''])"
    by code_simp
  have pre: "run_nodes stop_after_first three_chain [] initial_state = (None, initial_state)"
    by simp
  have ns: "\<not> stopped initial_state" by (simp add: initial_state_def)
  have node: "find (\<lambda>n. ident n = ascii ''n1'') (nodes three_chain) = Some ?node"
    by (simp add: three_chain_def titled_def mk_node_def)
  define r where "r = \<lparr>success = True, message = ascii ''Project initialized'',
    data = JObj [(ascii ''title'', JStr (ascii ''One'')), (ascii ''description'', JStr []),
                 (ascii ''timestamp'', JStr (ascii ''2026''))]\<rparr>"
  have ok: "fst (executeNode stop_after_first three_chain ?node initial_state) = Inr r"
    unfolding r_def by code_simp
  have succ: "success r" by (simp add: r_def)
  have stop: "stop_requested stop_after_first (clock initial_state)"
    by (simp add: stop_after_first_def initial_state_def)
  note w = stop_honoured_at_next_boundary [OF order pre ns node ok succ stop]
  have a: "fst (execute stop_after_first three_chain) = failure (ascii ''Workflow execution stopped by user'')"
    using w [THEN conjunct1] .
  have b: "marks (ascii ''n1'') (trace (snd (execute stop_after_first three_chain))) =
     [NodeStatus (ascii ''n1'') Running, HandlerCall (ascii ''n1'') (ascii ''projectCreate''), NodeStatus (ascii ''n1'') Success]"
    using w [THEN conjunct2, THEN conjunct2, THEN conjunct1] by (simp add: titled_def mk_node_def)
  have c: "marks (ascii ''n2'') (trace (snd (execute stop_after_first three_chain))) = [] \<and>
    marks (ascii ''n3'') (trace (snd (execute stop_after_first three_chain))) = []"
    using w [THEN conjunct2, THEN conjunct2, THEN conjunct2, THEN conjunct2] by simp
  from a b c show ?thesis by simp
qed

text \<open>
  C5 (amended).  For every graph whose edges form a cycle and whose edge targets are all
  ids of nodes, the sequence built covers fewer than all nodes, \<open>buildExecutionOrder\<close>
  throws the cycle error, and \<open>execute\<close> returns a failure result with that message
  without any status event or dispatch.  Without the condition on the targets the claim
  fails: ids that are no nodes can fill the sequence up to the number of nodes.
\<close>

theorem cycle_fails_run:
  assumes targets: "\<forall>e\<in>set (edges ctx). target e \<in> ident ` set (nodes ctx)"
    and cycle: "(v, v) \<in> (edge_rel (edges ctx))\<^sup>+"
  shows "length (kahn_result (nodes ctx) (edges ctx)) < length (nodes ctx) \<and>
         buildExecutionOrder (nodes ctx) (edges ctx) = Inl cycle_message \<and>
         execute ev ctx = (failure cycle_message, initial_state) \<and>
         trace (snd (execute ev ctx)) = []"
proof -
  let ?r = "kahn_result (nodes ctx) (edges ctx)" and ?ids = "ident ` set (nodes ctx)"
  obtain deg' where inv: "kahn_inv ?ids (edges ctx) deg' [] ?r" using kahn_result_inv by blast
  from kahn_inv_sub [OF inv] have "set ?r \<subseteq> ?ids \<union> target ` set (edges ctx)" by simp
  moreover have "target ` set (edges ctx) \<subseteq> ?ids" using targets by blast
  ultimately have sub: "set ?r \<subseteq> ?ids" by blast
  have vr: "v \<notin> set ?r" using cycle by (rule kahn_result_skips_cycle)
  from trancl_last_edge [OF cycle] obtain p where "(p, v) \<in> edge_rel (edges ctx)" by blast
  then have "v \<in> target ` set (edges ctx)" by (auto simp: edge_rel_def)
  with targets have vi: "v \<in> ?ids" by blast
  have "set ?r \<subset> ?ids" using sub vr vi by blast
  then have "card (set ?r) < card ?ids" by (intro psubset_card_mono) simp_all
  moreover have "card (set ?r) = length ?r"
    using kahn_result_distinct [of "nodes ctx" "edges ctx"] by (simp add: distinct_card)
  moreover have "card ?ids \<le> length (nodes ctx)"
    using card_image_le [of "set (nodes ctx)" ident] card_length [of "nodes ctx"] by simp
  ultimately have len: "length ?r < length (nodes ctx)" by simp
  then have b: "buildExecutionOrder (nodes ctx) (edges ctx) = Inl cycle_message"
    by (simp add: buildExecutionOrder_kahn)
  then have e: "execute ev ctx = (failure cycle_message, initial_state)"
    by (simp add: execute_def caught_def cycle_message_def)
  from len b e show ?thesis by (simp add: initial_state_def)
qed

theorem cycle_fails_run_witness:
  "(ascii ''a'', ascii ''a'') \<in> (edge_rel (edges two_cycle))\<^sup>+ \<and>
   kahn_result (nodes two_cycle) (edges two_cycle) = [ascii ''c''] \<and>
   execute quiet_env two_cycle = (failure cycle_message, initial_state) \<and>
   trace (snd (execute quiet_env two_cycle)) = []"
proof -
  have targets: "\<forall>e\<in>set (edges two_cycle). target e \<in> ident ` set (nodes two_cycle)"
    by (simp add: two_cycle_def mk_edge_def titled_def mk_node_def)
  have "(ascii ''a'', ascii ''b'') \<in> edge_rel (edges two_cycle)" "(ascii ''b'', ascii ''a'') \<in> edge_rel (edges two_cycle)"
    by (simp_all add: edge_rel_def two_cycle_def mk_edge_def)
  then have cycle: "(ascii ''a'', ascii ''a'') \<in> (edge_rel (edges two_cycle))\<^sup>+"
    by (meson trancl.r_into_trancl trancl_into_trancl)
  have k: "kahn_result (nodes two_cycle) (edges two_cycle) = [ascii ''c'']" by code_simp
  note w = cycle_fails_run [OF targets cycle, of quiet_env]
  from w cycle k show ?thesis by (simp add: initial_state_def)
qed

theorem cycle_not_detected_counterexample:
  "(ascii ''a'', ascii ''a'') \<in> (edge_rel (edges cycle_with_dangling_edges))\<^sup>+ \<and>
   buildExecutionOrder (nodes cycle_with_dangling_edges) (edges cycle_with_dangling_edges)
     = Inr [ascii ''c'', ascii ''x'', ascii ''y''] \<and>
   success (fst (execute quiet_env cycle_with_dangling_edges)) \<and>
   marks (ascii ''c'') (trace (snd (execute quiet_env cycle_with_dangling_edges))) =
     [NodeStatus (ascii ''c'') Running, HandlerCall (ascii ''c'') (ascii ''projectCreate''), NodeStatus (ascii ''c'') Success]"
proof -
  have "(ascii ''a'', ascii ''b'') \<in> edge_rel (edges cycle_with_dangling_edges)"
    "(ascii ''b'', ascii ''a'') \<in> edge_rel (edges cycle_with_dangling_edges)"
    by (simp_all add: edge_rel_def cycle_with_dangling_edges_def mk_edge_def)
  then have cycle: "(ascii ''a'', ascii ''a'') \<in> (edge_rel (edges cycle_with_dangling_edges))\<^sup>+"
    by (meson trancl.r_into_trancl trancl_into_trancl)
  have b: "buildExecutionOrder (nodes cycle_with_dangling_edges) (edges cycle_with_dangling_edges)
     = Inr [ascii ''c'', ascii ''x'', ascii ''y'']" by code_simp
  have c: "success (fst (execute quiet_env cycle_with_dangling_edges))" by code_simp
  have d: "marks (ascii ''c'') (trace (snd (execute quiet_env cycle_with_dangling_edges))) =
     [NodeStatus (ascii ''c'') Running, HandlerCall (ascii ''c'') (ascii ''projectCreate''), NodeStatus (ascii ''c'') Success]"
    by code_simp
  from cycle b c d show ?thesis by simp
qed

text \<open>
  C6.  \<open>buildExecutionOrder\<close> is a function of the node list and the edge list.  For
  unique node ids, the work queue is seeded with the nodes that no edge targets, in the
  order the nodes were supplied, and the output starts with that seed; for a graph with
  no edges at all the output is exactly the node ids in their original order.
\<close>

theorem buildExecutionOrder_stable_seed:
  assumes "distinct (map ident ns)"
  shows "seed_queue (fst (build_graph ns es)) =
           filter (\<lambda>i. i \<notin> target ` set es) (map ident ns) \<and>
         (\<exists>rest. kahn_result ns es = filter (\<lambda>i. i \<notin> target ` set es) (map ident ns) @ rest) \<and>
         buildExecutionOrder ns [] = Inr (map ident ns)"
proof -
  have a: "seed_queue (fst (build_graph ns es)) =
           filter (\<lambda>i. i \<notin> target ` set es) (map ident ns)"
    using assms by (rule seed_queue_build_graph)
  have b: "\<exists>rest. kahn_result ns es = filter (\<lambda>i. i \<notin> target ` set es) (map ident ns) @ rest"
    using kahn_result_starts_with_seed [of ns es] by (simp add: a)
  have c: "buildExecutionOrder ns [] = Inr (map ident ns)"
    using kahn_result_no_edges [OF assms] by (simp add: buildExecutionOrder_kahn)
  from a b c show ?thesis by simp
qed

theorem buildExecutionOrder_stable_seed_witness:
  "seed_queue (fst (build_graph two_roots_nodes two_roots_edges)) = [ascii ''z'', ascii ''a''] \<and>
   buildExecutionOrder two_roots_nodes two_roots_edges = Inr [ascii ''z'', ascii ''a'', ascii ''m''] \<and>
   buildExecutionOrder two_roots_nodes [] = Inr [ascii ''z'', ascii ''m'', ascii ''a'']"
proof -
  have d: "distinct (map ident two_roots_nodes)"
    by (simp add: two_roots_nodes_def mk_node_def)
  note w = buildExecutionOrder_stable_seed [OF d, of two_roots_edges]
  have a: "seed_queue (fst (build_graph two_roots_nodes two_roots_edges)) = [ascii ''z'', ascii ''a'']"
    using w [THEN conjunct1] by (simp add: two_roots_nodes_def two_roots_edges_def mk_node_def mk_edge_def)
  have b: "buildExecutionOrder two_roots_nodes two_roots_edges = Inr [ascii ''z'', ascii ''a'', ascii ''m'']"
    by code_simp
  have c: "buildExecutionOrder two_roots_nodes [] = Inr [ascii ''z'', ascii ''m'', ascii ''a'']"
    using w [THEN conjunct2, THEN conjunct2] by (simp add: two_roots_nodes_def mk_node_def)
  from a b c show ?thesis by simp
qed

text \<open>
  C7.  When the compile handler reaches the compiler and the compiler reports failure with
  a non-empty list of errors, the failure message is the errors joined by two newlines,
  each error longer than 500 characters cut to its first 500 characters followed by the
  marker \<^verbatim>\<open>... (truncated)\<close> (515 characters in all, so also for an error of length
  1000), and every error as formatted occurs in the message.  A character is a UTF-16
  code unit here, which is what \<^verbatim>\<open>length\<close> and \<^verbatim>\<open>substring\<close> count.
\<close>

theorem compile_errors_truncated:
  assumes found: "truthy (field (findPreviousData (nodes ctx) store (ascii ''contractInput'')) (ascii ''contractCode''))"
    and wallet: "resolve_walletAddress ev t = Some w"
    and compiled: "compileContract ev t
        (field (findPreviousData (nodes ctx) store (ascii ''contractInput'')) (ascii ''contractCode''))
        (js_or (field (findPreviousData (nodes ctx) store (ascii ''contractInput'')) (ascii ''contractName''))
               (JStr (ascii ''MyModule'')))
        w = Returns r"
    and failed: "\<not> c_success r"
    and errs: "errors r = Some es"
    and nonempty: "es \<noteq> []"
  shows "executeCompile ev ctx store t node =
           ([], Returns (failure (join (newline @ newline)
              (map (\<lambda>e. if 500 < length e then take 500 e @ ascii ''... (truncated)'' else e) es)))) \<and>
         (\<forall>e\<in>set es. 500 < length e \<longrightarrow>
            sublist (take 500 e @ ascii ''... (truncated)'')
              (join (newline @ newline) (map truncate_error es)) \<and>
            length (take 500 e @ ascii ''... (truncated)'') = 515) \<and>
         (\<forall>e\<in>set es. length e \<le> 500 \<longrightarrow>
            sublist e (join (newline @ newline) (map truncate_error es)))"
proof -
  have te: "truncate_error = (\<lambda>e. if 500 < length e then take 500 e @ ascii ''... (truncated)'' else e)"
    by (rule ext) (simp add: truncate_error_def)
  have msg: "compile_error_message (errors r) = join (newline @ newline) (map truncate_error es)"
    using errs nonempty by (simp add: compile_error_message_def)
  have a: "executeCompile ev ctx store t node =
      ([], Returns (failure (join (newline @ newline) (map truncate_error es))))"
    using found wallet compiled failed by (simp add: executeCompile_def Let_def msg)
  have b: "\<forall>e\<in>set es. 500 < length e \<longrightarrow>
            sublist (take 500 e @ ascii ''... (truncated)'')
              (join (newline @ newline) (map truncate_error es)) \<and>
            length (take 500 e @ ascii ''... (truncated)'') = 515"
  proof (intro ballI impI)
    fix e assume e: "e \<in> set es" "500 < length e"
    then have "truncate_error e \<in> set (map truncate_error es)" by simp
    then have "sublist (truncate_error e) (join (newline @ newline) (map truncate_error es))"
      by (rule sublist_join)
    with e(2) show "sublist (take 500 e @ ascii ''... (truncated)'')
              (join (newline @ newline) (map truncate_error es)) \<and>
            length (take 500 e @ ascii ''... (truncated)'') = 515"
      by (simp add: truncate_error_def)
  qed
  have c: "\<forall>e\<in>set es. length e \<le> 500 \<longrightarrow>
            sublist e (join (newline @ newline) (map truncate_error es))"
  proof (intro ballI impI)
    fix e assume e: "e \<in> set es" "length e \<le> 500"
    then have "truncate_error e \<in> set (map truncate_error es)" by simp
    then have "sublist (truncate_error e) (join (newline @ newline) (map truncate_error es))"
      by (rule sublist_join)
    with e(2) show "sublist e (join (newline @ newline) (map truncate_error es))"
      by (simp add: truncate_error_def)
  qed
  from a b c show ?thesis by (simp only: te)
qed

theorem compile_errors_truncated_witness:
  "executeCompile failing_compiler compile_workflow source_store 1 (mk_node (ascii ''cmp'') (ascii ''compile'')) =
     ([], Returns (failure
        (replicate 500 0xE9 @ ascii ''... (truncated)'' @ newline @ newline @
         replicate 499 0x78 @ [0xD83D] @ ascii ''... (truncated)'' @ newline @ newline @
         replicate 300 0x4E2D))) \<and>
   length long_error = 1000 \<and>
   length (replicate 500 (0xE9 :: code_unit) @ ascii ''... (truncated)'') = 515 \<and>
   sublist (replicate 500 0xE9 @ ascii ''... (truncated)'')
     (join (newline @ newline) (map truncate_error [long_error, astral_error, short_error])) \<and>
   sublist short_error
     (join (newline @ newline) (map truncate_error [long_error, astral_error, short_error]))"
proof -
  let ?r = "\<lparr>c_success = False, bytecode = None, abi = JUndefined,
         errors = Some [long_error, astral_error, short_error],
         warnings = None, metadataBytes = None\<rparr>"
  have cd: "findPreviousData (nodes compile_workflow) source_store (ascii ''contractInput'') =
      JObj [(ascii ''contractCode'', JStr (ascii ''module Deployer::Foo {}'')), (ascii ''contractName'', JStr (ascii ''Foo''))]"
    by (simp add: compile_workflow_def source_store_def mk_node_def)
  have found: "truthy (field (findPreviousData (nodes compile_workflow) source_store
      (ascii ''contractInput'')) (ascii ''contractCode''))"
    by (simp add: cd)
  have wallet: "resolve_walletAddress failing_compiler 1 = Some (ascii ''0x1'')"
    by (simp add: resolve_walletAddress_def wallet_method1_def wallet_method2_def
        failing_compiler_def quiet_env_def is_wallet_address_def ascii_def)
  have compiled: "compileContract failing_compiler 1
        (field (findPreviousData (nodes compile_workflow) source_store (ascii ''contractInput'')) (ascii ''contractCode''))
        (js_or (field (findPreviousData (nodes compile_workflow) source_store (ascii ''contractInput''))
            (ascii ''contractName'')) (JStr (ascii ''MyModule'')))
        (ascii ''0x1'') = Returns ?r"
    by (simp add: failing_compiler_def quiet_env_def)
  have failed: "\<not> c_success ?r" by simp
  have errs: "errors ?r = Some [long_error, astral_error, short_error]" by simp
  have nonempty: "[long_error, astral_error, short_error] \<noteq> []" by simp
  note w = compile_errors_truncated [OF found wallet compiled failed errs nonempty,
      of "mk_node (ascii ''cmp'') (ascii ''compile'')"]
  have l1: "length long_error = 1000" by (simp add: long_error_def)
  have l2: "length astral_error = 501" by (simp add: astral_error_def)
  have l3: "length short_error = 300" by (simp add: short_error_def)
  have t1: "take 500 long_error = replicate 500 0xE9" by (simp add: long_error_def)
  have t2: "take 500 astral_error = replicate 499 0x78 @ [0xD83D]" by (simp add: astral_error_def)
  have a: "executeCompile failing_compiler compile_workflow source_store 1 (mk_node (ascii ''cmp'') (ascii ''compile'')) =
     ([], Returns (failure
        (replicate 500 0xE9 @ ascii ''... (truncated)'' @ newline @ newline @
         replicate 499 0x78 @ [0xD83D] @ ascii ''... (truncated)'' @ newline @ newline @
         replicate 300 0x4E2D)))"
    using w [THEN conjunct1] by (simp add: l1 l2 l3 t1 t2) (simp add: short_error_def)
  have b: "sublist (replicate 500 0xE9 @ ascii ''... (truncated)'')
     (join (newline @ newline) (map truncate_error [long_error, astral_error, short_error]))"
    using w [THEN conjunct2, THEN conjunct1] by (simp add: l1 t1)
  have c: "sublist short_error
     (join (newline @ newline) (map truncate_error [long_error, astral_error, short_error]))"
    using w [THEN conjunct2, THEN conjunct2] by (simp add: l3)
  from a l1 b c show ?thesis by simp
qed

text \<open>
  C8.  Within one run, the status events of a node (with the mark of its dispatch) form
  one of four sequences: nothing; running, dispatch, success; running, dispatch, error;
  or, for a node of unknown type, running, error.  So a node is set to running at most
  once, before its handler is dispatched, and to success or error at most once,
  afterwards; no other status change of the node is reported.  (The status a node has
  before the run is the caller's; the executor never reports idle.)
\<close>

theorem node_status_transitions:
  "marks i (trace (snd (execute ev ctx))) = [] \<or>
   (\<exists>ty. marks i (trace (snd (execute ev ctx))) =
      [NodeStatus i Running, HandlerCall i ty, NodeStatus i Success]) \<or>
   (\<exists>ty. marks i (trace (snd (execute ev ctx))) =
      [NodeStatus i Running, HandlerCall i ty, NodeStatus i Error]) \<or>
   marks i (trace (snd (execute ev ctx))) = [NodeStatus i Running, NodeStatus i Error]"
proof (cases "buildExecutionOrder (nodes ctx) (edges ctx)")
  case (Inl msg)
  then have "trace (snd (execute ev ctx)) = []"
    by (simp add: execute_def initial_state_def)
  then show ?thesis by (simp add: marks_def)
next
  case (Inr order)
  show ?thesis
  proof (cases "length order = 0")
    case True
    with Inr have "trace (snd (execute ev ctx)) = []"
      by (simp add: execute_def initial_state_def)
    then show ?thesis by (simp add: marks_def)
  next
    case False
    have tr: "trace (snd (execute ev ctx)) = trace (snd (run_nodes ev ctx order initial_state))"
      using Inr False by (simp add: execute_def split: prod.splits option.splits sum.splits)
    from buildExecutionOrder_distinct [OF Inr] have "distinct order" .
    from run_nodes_marks_ok [OF this, of i ev ctx initial_state]
    obtain m where "marks i (trace (snd (run_nodes ev ctx order initial_state))) = m" "ok_marks i m"
      by (auto simp: initial_state_def marks_def)
    with tr show ?thesis by (simp add: ok_marks_def)
  qed
qed

text \<open>
  C9 (amended).  The builder does not validate edge endpoints and reads a missing degree
  as zero.  An edge both of whose endpoints are absent from the node set is silently
  admitted: when every edge has both endpoints present or both absent,
  \<open>buildExecutionOrder\<close> returns what it returns without the edges between absent ids.
  An edge with exactly one absent endpoint is not admitted in general: alone, it makes
  the builder throw the cycle error.
\<close>

theorem edges_between_absent_ids_ignored:
  assumes "\<forall>e\<in>set es. source e \<in> ident ` set ns \<longleftrightarrow> target e \<in> ident ` set ns"
  shows "buildExecutionOrder ns es =
         buildExecutionOrder ns
           (filter (\<lambda>e. source e \<in> ident ` set ns \<and> target e \<in> ident ` set ns) es)"
proof -
  let ?ids = "ident ` set ns"
  let ?es' = "filter (\<lambda>e. source e \<in> ?ids \<and> target e \<in> ?ids) es"
  let ?D0 = "fold (\<lambda>n m. map_set m (ident n) (0::int)) ns []"
  let ?A0 = "fold (\<lambda>n m. map_set m (ident n) ([]::jstring list)) ns []"
  have kD: "fst ` set ?D0 = ?ids" by (simp add: fold_init_keys_set)
  have kA: "fst ` set ?A0 = ?ids" by (simp add: fold_init_keys_set)
  have f1: "filter (\<lambda>e. source e \<in> ?ids) es = ?es'"
    using assms by (intro filter_cong) auto
  have f2: "filter (\<lambda>e. target e \<in> ?ids) es = ?es'"
    using assms by (intro filter_cong) auto
  have f3: "filter (\<lambda>e. source e \<in> ?ids) ?es' = ?es'"
    by (simp add: conj_commute conj_left_commute cong: conj_cong)
  have adj: "add_adj es ?A0 = add_adj ?es' ?A0"
    using add_adj_filter [of es ?A0] by (simp add: kA f1)
  have "extras_ok ?ids []" by (simp add: extras_ok_def)
  from add_deg_sim [OF kD this, of es] obtain x' where
    deg: "add_deg es ?D0 = add_deg ?es' ?D0 @ x'" and ex: "extras_ok ?ids x'"
    by (auto simp: f2)
  let ?d = "add_deg ?es' ?D0" and ?adj = "add_adj ?es' ?A0"
  have kd: "fst ` set ?d = ?ids"
    by (auto simp: add_deg_keys_set kD)
  have nb: "\<And>k nbs. map_get ?adj k = Some nbs \<Longrightarrow> set nbs \<subseteq> fst ` set ?d"
  proof -
    fix k nbs assume g: "map_get ?adj k = Some nbs"
    have "map_get ?adj k = (if k \<in> ?ids then Some (succs ?es' k) else None)"
      using build_graph_adj [of ns ?es' k] by (simp add: build_graph_eq)
    with g have "nbs = succs ?es' k" by (auto split: if_splits)
    then show "set nbs \<subseteq> fst ` set ?d" by (auto simp: kd succs_def)
  qed
  have "kahn_result ns es = kahn_loop ?adj (?d @ x') (seed_queue (?d @ x')) []"
    by (simp add: kahn_result_def build_graph_eq adj deg)
  also have "\<dots> = kahn_loop ?adj ?d (seed_queue ?d) []"
    using kahn_loop_extras [where adj = ?adj and d = ?d and x = x' and q = "seed_queue ?d"
        and r = "[]", OF nb] seed_queue_extras [OF ex, of ?d]
    by simp
  also have "\<dots> = kahn_result ns ?es'"
    by (simp add: kahn_result_def build_graph_eq)
  finally show ?thesis by (simp add: buildExecutionOrder_kahn)
qed

theorem dangling_edge_fails_run_counterexample:
  "buildExecutionOrder (nodes dangling_target) [] = Inr [ascii ''a''] \<and>
   kahn_result (nodes dangling_target) (edges dangling_target) = [ascii ''a'', ascii ''x''] \<and>
   buildExecutionOrder (nodes dangling_target) (edges dangling_target) = Inl cycle_message \<and>
   execute quiet_env dangling_target = (failure cycle_message, initial_state) \<and>
   kahn_result (nodes dangling_source) (edges dangling_source) = [] \<and>
   execute quiet_env dangling_source = (failure cycle_message, initial_state)"
  by code_simp

theorem edges_between_absent_ids_ignored_witness:
  "buildExecutionOrder absent_edge_nodes absent_edge_edges =
     buildExecutionOrder absent_edge_nodes [mk_edge (ascii ''a'') (ascii ''b'')] \<and>
   buildExecutionOrder absent_edge_nodes absent_edge_edges = Inr [ascii ''a'', ascii ''b'']"
proof -
  have h: "\<forall>e\<in>set absent_edge_edges.
      source e \<in> ident ` set absent_edge_nodes \<longleftrightarrow> target e \<in> ident ` set absent_edge_nodes"
    by (simp add: absent_edge_edges_def absent_edge_nodes_def mk_edge_def mk_node_def)
  have f: "filter (\<lambda>e. source e \<in> ident ` set absent_edge_nodes \<and>
      target e \<in> ident ` set absent_edge_nodes) absent_edge_edges = [mk_edge (ascii ''a'') (ascii ''b'')]"
    by (simp add: absent_edge_edges_def absent_edge_nodes_def mk_edge_def mk_node_def)
  have v: "buildExecutionOrder absent_edge_nodes absent_edge_edges = Inr [ascii ''a'', ascii ''b'']"
    by code_simp
  from edges_between_absent_ids_ignored [OF h] f v show ?thesis by simp
qed

text \<open>
  C10.  A node whose type tag is none of the eight known types is not dispatched to any
  handler: the \<^verbatim>\<open>switch\<close> yields a failure result (not an exception) whose message names
  the type, the node's status goes from running to error, and the run fails at that node.
\<close>

theorem unknown_node_type_fails_run:
  assumes order: "buildExecutionOrder (nodes ctx) (edges ctx) = Inr (pre @ nodeId # post)"
    and pre: "run_nodes ev ctx pre initial_state = (None, s)"
    and ns: "\<not> stopped s"
    and node: "find (\<lambda>n. ident n = nodeId) (nodes ctx) = Some node"
    and unknown: "node_type (ndata node) \<notin> set known_types"
  shows "dispatch ev ctx (executionData s) (clock s) node =
           ([], Returns (failure (ascii ''Unknown node type: '' @ node_type (ndata node)))) \<and>
         fst (executeNode ev ctx node s) =
           Inr (failure (ascii ''Unknown node type: '' @ node_type (ndata node))) \<and>
         fst (execute ev ctx) =
           failure (ascii ''Failed at node '' @ dquote @ label (ndata node) @ dquote @
                    ascii '': Unknown node type: '' @ node_type (ndata node)) \<and>
         marks nodeId (trace (snd (execute ev ctx))) =
           [NodeStatus nodeId Running, NodeStatus nodeId Error] \<and>
         (\<forall>i\<in>set post. marks i (trace (snd (execute ev ctx))) = [])"
proof -
  have disp: "dispatch ev ctx (executionData s) (clock s) node =
           ([], Returns (failure (ascii ''Unknown node type: '' @ node_type (ndata node))))"
    using unknown by (rule dispatch_unknown)
  have nr: "node_result ev ctx node s =
      Inr (failure (ascii ''Unknown node type: '' @ node_type (ndata node)))"
    using unknown by (rule node_result_unknown)
  then have nf: "\<not> proceeds (node_result ev ctx node s)" by (simp add: proceeds_def failure_def)
  have idn: "ident node = nodeId" using node by (rule find_ident)
  note ex = execute_fails_at [OF order pre ns node nf]
  note reached = reached_state_facts [OF order pre]
  have d: "distinct (pre @ nodeId # post)" using order by (rule buildExecutionOrder_distinct)
  have en: "fst (executeNode ev ctx node s) =
           Inr (failure (ascii ''Unknown node type: '' @ node_type (ndata node)))"
    by (simp add: executeNode_eq nr)
  have r: "fst (execute ev ctx) =
           failure (ascii ''Failed at node '' @ dquote @ label (ndata node) @ dquote @
                    ascii '': Unknown node type: '' @ node_type (ndata node))"
    by (simp add: ex returned_def loop_exit_def failed_at_def nr failure_def)
  have t: "trace (snd (execute ev ctx)) = trace s @ node_events ev ctx node s"
    by (simp add: ex)
  have fs: "final_status (node_result ev ctx node s) = Error"
    using nf by (simp add: final_status_def)
  have m: "marks nodeId (trace (snd (execute ev ctx))) =
           [NodeStatus nodeId Running, NodeStatus nodeId Error]"
    using reached(2) [of nodeId] idn fs unknown by (simp add: t marks_append marks_node_events)
  have later: "\<forall>i\<in>set post. marks i (trace (snd (execute ev ctx))) = []"
  proof
    fix i assume i: "i \<in> set post"
    with d have "i \<noteq> nodeId" by auto
    with reached(2) [of i] i idn show "marks i (trace (snd (execute ev ctx))) = []"
      by (simp add: t marks_append marks_node_events)
  qed
  from disp en r m later show ?thesis by simp
qed

theorem unknown_node_type_fails_run_witness:
  "fst (execute quiet_env unknown_type_workflow) =
     failure (ascii ''Failed at node '' @ dquote @ ascii ''n1'' @ dquote @ ascii '': Unknown node type: transfer'') \<and>
   marks (ascii ''n1'') (trace (snd (execute quiet_env unknown_type_workflow))) =
     [NodeStatus (ascii ''n1'') Running, NodeStatus (ascii ''n1'') Error] \<and>
   marks (ascii ''done'') (trace (snd (execute quiet_env unknown_type_workflow))) = []"
proof -
  let ?node = "mk_node (ascii ''n1'') (ascii ''transfer'')"
  have order: "buildExecutionOrder (nodes unknown_type_workflow) (edges unknown_type_workflow)
      = Inr ([] @ ascii ''n1'' # [ascii ''done''])"
    by code_simp
  have pre: "run_nodes quiet_env unknown_type_workflow [] initial_state = (None, initial_state)"
    by simp
  have ns: "\<not> stopped initial_state" by (simp add: initial_state_def)
  have node: "find (\<lambda>n. ident n = ascii ''n1'') (nodes unknown_type_workflow) = Some ?node"
    by (simp add: unknown_type_workflow_def mk_node_def)
  have unknown: "node_type (ndata ?node) \<notin> set known_types"
    by (simp add: mk_node_def known_types_def)
  note w = unknown_node_type_fails_run [OF order pre ns node unknown]
  have a: "fst (execute quiet_env unknown_type_workflow) =
     failure (ascii ''Failed at node '' @ dquote @ ascii ''n1'' @ dquote @ ascii '': Unknown node type: transfer'')"
    using w [THEN conjunct2, THEN conjunct2, THEN conjunct1] by (simp add: mk_node_def)
  have b: "marks (ascii ''n1'') (trace (snd (execute quiet_env unknown_type_workflow))) =
     [NodeStatus (ascii ''n1'') Running, NodeStatus (ascii ''n1'') Error]"
    using w [THEN conjunct2, THEN conjunct2, THEN conjunct2, THEN conjunct1] by simp
  have c: "marks (ascii ''done'') (trace (snd (execute quiet_env unknown_type_workflow))) = []"
    using w [THEN conjunct2, THEN conjunct2, THEN conjunct2, THEN conjunct2] by simp
  from a b c show ?thesis by simp
qed

end
